theory Spec2Isabelle
  imports Complex_Main "HOL-Library.Word" "HOL-Library.Log_Nat"
begin

section \<open>Double-precision arithmetic\<close>

text \<open>
  The program computes box weights and scores in C++ \<^verbatim>\<open>double\<close>. A double is modelled
  as a rational (the finite values), the two infinities, or NaN. Every arithmetic
  operation computes the exact rational result and rounds it to the nearest binary64
  value, ties to even (\<open>fl\<close>): 53 significant bits, gradual underflow below
  \<open>2 powi (- 1022)\<close>, overflow to an infinity from \<open>2 ^ 1024\<close> on. This is IEEE 754
  arithmetic in which every operation is rounded once, to double (no wider intermediate
  format, no fused multiply-add). The sign of a zero is not modelled: the program divides
  only by \<^verbatim>\<open>2.0f\<close> and by a vector size, so a zero divisor is always the positive zero.
\<close>

datatype double = Finite rat | PInf | NInf | NaN

text \<open>\<open>flog2 x\<close> is the binary exponent of a positive rational: \<open>2 powi flog2 x \<le> x < 2 powi (flog2 x + 1)\<close>.\<close>

definition flog2 :: "rat \<Rightarrow> int" where
  "flog2 x = (if 1 \<le> x then bitlen \<lfloor>x\<rfloor> - 1 else - bitlen (\<lceil>1 / x\<rceil> - 1))"

definition round_even :: "rat \<Rightarrow> int" where
  "round_even r =
     (let f = \<lfloor>r\<rfloor>; d = r - of_int f
      in if d < 1 / 2 then f
         else if 1 / 2 < d then f + 1
         else if even f then f else f + 1)"

definition fl_pos :: "rat \<Rightarrow> rat" where
  "fl_pos x =
     (let e = max (flog2 x) (- 1022)
      in of_int (round_even (x * 2 powi (52 - e))) * 2 powi (e - 52))"

definition fl :: "rat \<Rightarrow> rat" where
  "fl x = (if x = 0 then 0 else if 0 < x then fl_pos x else - fl_pos (- x))"

definition round_rat :: "rat \<Rightarrow> double" where
  "round_rat x =
     (let r = fl x
      in if 2 ^ 1024 \<le> r then PInf
         else if r \<le> - (2 ^ 1024) then NInf
         else Finite r)"

fun dadd :: "double \<Rightarrow> double \<Rightarrow> double" where
  "dadd (Finite a) (Finite b) = round_rat (a + b)"
| "dadd NaN _ = NaN"
| "dadd _ NaN = NaN"
| "dadd PInf NInf = NaN"
| "dadd NInf PInf = NaN"
| "dadd PInf _ = PInf"
| "dadd _ PInf = PInf"
| "dadd NInf _ = NInf"
| "dadd _ NInf = NInf"

definition dsign_neg :: "double \<Rightarrow> bool" where
  "dsign_neg x = (case x of Finite a \<Rightarrow> a < 0 | NInf \<Rightarrow> True | _ \<Rightarrow> False)"

definition dinf :: "bool \<Rightarrow> double" where
  "dinf neg = (if neg then NInf else PInf)"

definition is_inf :: "double \<Rightarrow> bool" where
  "is_inf x = (x = PInf \<or> x = NInf)"

definition dmul :: "double \<Rightarrow> double \<Rightarrow> double" where
  "dmul x y =
     (case (x, y) of
        (Finite a, Finite b) \<Rightarrow> round_rat (a * b)
      | _ \<Rightarrow>
          if x = NaN \<or> y = NaN \<or> x = Finite 0 \<or> y = Finite 0 then NaN
          else dinf (dsign_neg x \<noteq> dsign_neg y))"

definition ddiv :: "double \<Rightarrow> double \<Rightarrow> double" where
  "ddiv x y =
     (case (x, y) of
        (Finite a, Finite b) \<Rightarrow>
          if b = 0 then (if a = 0 then NaN else dinf (a < 0))
          else round_rat (a / b)
      | _ \<Rightarrow>
          if x = NaN \<or> y = NaN \<or> (is_inf x \<and> is_inf y) then NaN
          else if is_inf y then Finite 0
          else dinf (dsign_neg x \<noteq> dsign_neg y))"

text \<open>The comparison \<^verbatim>\<open><\<close> on doubles: false whenever an operand is NaN.\<close>

fun dless :: "double \<Rightarrow> double \<Rightarrow> bool" where
  "dless (Finite a) (Finite b) = (a < b)"
| "dless NaN _ = False"
| "dless _ NaN = False"
| "dless _ NInf = False"
| "dless PInf _ = False"
| "dless NInf _ = True"
| "dless _ PInf = True"

fun dle :: "double \<Rightarrow> double \<Rightarrow> bool" where
  "dle (Finite a) (Finite b) = (a \<le> b)"
| "dle NaN _ = False"
| "dle _ NaN = False"
| "dle NInf _ = True"
| "dle _ PInf = True"
| "dle _ NInf = False"
| "dle PInf _ = False"

type_synonym u32 = "32 word"
type_synonym u16 = "16 word"

text \<open>
  \<^verbatim>\<open>static_cast<double>(w)\<close> for a \<^verbatim>\<open>uint32_t\<close>: every value below \<open>2 ^ 53\<close> is a
  double, so the conversion is exact (lemma \<open>fl_of_nat\<close> below). A \<^verbatim>\<open>size_t\<close> is
  rounded. A literal denotes the double nearest to it.
\<close>

definition of_u32 :: "u32 \<Rightarrow> double" where
  "of_u32 w = Finite (of_nat (unat w))"

definition of_size :: "nat \<Rightarrow> double" where
  "of_size n = round_rat (of_nat n)"

definition d_lit :: "rat \<Rightarrow> double" where
  "d_lit q = round_rat q"

section \<open>Boxes\<close>

text \<open>
  \<^verbatim>\<open>class Box\<close> with its two subclasses; the virtual \<^verbatim>\<open>calcScore\<close> dispatches on the
  dynamic type, here the field \<open>kind\<close>.
\<close>

datatype box_kind = PlainBox | GreenBox | BlueBox

text \<open>The members \<^verbatim>\<open>weight_\<close> and \<^verbatim>\<open>score_\<close> are written \<open>m_weight\<close> and \<open>m_score\<close>.\<close>

record box =
  kind :: box_kind
  m_weight :: double
  absorbed_weights :: "u32 list"

text \<open>
  What the C++ does where the model could read out of range: dereferencing the end
  iterator of an empty range, indexing a vector out of bounds and dereferencing a pointer
  to no live object are undefined behaviour, \<^verbatim>\<open>vector::at\<close> throws.
\<close>

datatype fault = EmptyRange | OutOfRange | BadIndex | BadPointer

definition Box :: "box_kind \<Rightarrow> double \<Rightarrow> box" where
  "Box k initial_weight = \<lparr>kind = k, m_weight = initial_weight, absorbed_weights = []\<rparr>"

definition makeGreenBox :: "double \<Rightarrow> box" where
  "makeGreenBox initial_weight = Box GreenBox initial_weight"

definition makeBlueBox :: "double \<Rightarrow> box" where
  "makeBlueBox initial_weight = Box BlueBox initial_weight"

definition box_less :: "box \<Rightarrow> box \<Rightarrow> bool" where
  "box_less lhs rhs = dless (m_weight lhs) (m_weight rhs)"

definition vec_at :: "'a list \<Rightarrow> nat \<Rightarrow> fault + 'a" where
  "vec_at xs i = (if i < length xs then Inr (xs ! i) else Inl OutOfRange)"

definition recent_weights :: "u32 list \<Rightarrow> fault + u32 list" where
  "recent_weights aw =
     (let abs_size = length aw
      in if abs_size < 3 then Inr aw
         else
           (case vec_at aw (abs_size - 3) of Inl e \<Rightarrow> Inl e | Inr a \<Rightarrow>
            case vec_at aw (abs_size - 2) of Inl e \<Rightarrow> Inl e | Inr b \<Rightarrow>
            case vec_at aw (abs_size - 1) of Inl e \<Rightarrow> Inl e | Inr c \<Rightarrow>
              Inr [a, b, c]))"

definition green_calcScore :: "u32 list \<Rightarrow> fault + double" where
  "green_calcScore aw =
     (case recent_weights aw of
        Inl e \<Rightarrow> Inl e
      | Inr rw \<Rightarrow>
          (let mean_weight = fold (\<lambda>weight m. dadd m (of_u32 weight)) rw (Finite 0);
               mean_weight = ddiv mean_weight (of_size (length rw))
           in Inr (dmul mean_weight mean_weight)))"

fun min_element :: "u32 list \<Rightarrow> fault + u32" where
  "min_element [] = Inl EmptyRange"
| "min_element (x # xs) = Inr (fold (\<lambda>y m. if y < m then y else m) xs x)"

fun max_element :: "u32 list \<Rightarrow> fault + u32" where
  "max_element [] = Inl EmptyRange"
| "max_element (x # xs) = Inr (fold (\<lambda>y m. if m < y then y else m) xs x)"

text \<open>The sum \<^verbatim>\<open>min + max\<close> is formed in \<^verbatim>\<open>uint32_t\<close>, so it wraps, and is converted afterwards.\<close>

definition pairing :: "u32 \<Rightarrow> u32 \<Rightarrow> double" where
  "pairing mn mx =
     (let sum = of_u32 (mn + mx)
      in dadd (ddiv (dmul sum (dadd sum (Finite 1))) (Finite 2)) (of_u32 mx))"

definition blue_calcScore :: "u32 list \<Rightarrow> fault + double" where
  "blue_calcScore aw =
     (case min_element aw of Inl e \<Rightarrow> Inl e | Inr min_Element \<Rightarrow>
      case max_element aw of Inl e \<Rightarrow> Inl e | Inr max_Element \<Rightarrow>
        Inr (pairing min_Element max_Element))"

definition calcScore :: "box \<Rightarrow> fault + double" where
  "calcScore b =
     (case kind b of
        PlainBox \<Rightarrow> Inr (Finite 0)
      | GreenBox \<Rightarrow> green_calcScore (absorbed_weights b)
      | BlueBox \<Rightarrow> blue_calcScore (absorbed_weights b))"

definition boxAbsorb :: "box \<Rightarrow> u32 \<Rightarrow> box" where
  "boxAbsorb b weight =
     b\<lparr>absorbed_weights := absorbed_weights b @ [weight],
       m_weight := dadd (m_weight b) (of_u32 weight)\<rparr>"

section \<open>Selecting the smallest box\<close>

text \<open>
  The loop of \<^verbatim>\<open>findSmallestBox\<close>: \<open>idx\<close> is a \<^verbatim>\<open>size_t\<close>, \<open>small_idx\<close> a
  \<^verbatim>\<open>uint16_t\<close>, and the assignment truncates \<open>idx\<close> to 16 bits.
\<close>

function findSmallestBox_loop :: "box list \<Rightarrow> nat \<Rightarrow> u16 \<Rightarrow> u16" where
  "findSmallestBox_loop boxes idx small_idx =
     (if idx < length boxes
      then findSmallestBox_loop boxes (idx + 1)
             (if box_less (boxes ! idx) (boxes ! unat small_idx) then of_nat idx else small_idx)
      else small_idx)"
  by pat_completeness auto
termination
  by (relation "measure (\<lambda>(boxes, idx, small_idx). length boxes - idx)") auto

declare findSmallestBox_loop.simps [simp del]

definition findSmallestBox :: "box list \<Rightarrow> u16" where
  "findSmallestBox boxes = findSmallestBox_loop boxes 1 0"

section \<open>Players and the game\<close>

record player =
  m_score :: double

definition new_player :: player where
  "new_player = \<lparr>m_score = Finite 0\<rparr>"

definition getScore :: "player \<Rightarrow> double" where
  "getScore p = m_score p"

text \<open>
  \<^verbatim>\<open>Player::takeTurn\<close> mutates the selected box through the shared vector and its own
  score; the model returns both. Indexing the vector beyond its size is a fault.
\<close>

definition takeTurn :: "u32 \<Rightarrow> player \<Rightarrow> box list \<Rightarrow> fault + (player \<times> box list)" where
  "takeTurn input_weight p boxes =
     (let small_idx = unat (findSmallestBox boxes)
      in if length boxes \<le> small_idx then Inl BadIndex
         else
           (let b = boxAbsorb (boxes ! small_idx) input_weight
            in case calcScore b of
                 Inl e \<Rightarrow> Inl e
               | Inr s \<Rightarrow> Inr (p\<lparr>m_score := dadd (m_score p) s\<rparr>, boxes[small_idx := b])))"

record game =
  boxes :: "box list"
  count :: u16
  player_A :: player
  player_B :: player

definition new_game :: game where
  "new_game =
     \<lparr>boxes = [makeGreenBox (d_lit 0), makeGreenBox (d_lit (1 / 10)),
               makeBlueBox (d_lit (2 / 10)), makeBlueBox (d_lit (3 / 10))],
      count = 0, player_A = new_player, player_B = new_player\<rparr>"

text \<open>One iteration of the loop of \<^verbatim>\<open>play\<close>: the turn, then the saturating counter.\<close>

definition A_to_move :: "game \<Rightarrow> bool" where
  "A_to_move g = (unat (count g) mod 2 = 0)"

definition next_count :: "u16 \<Rightarrow> u16" where
  "next_count c = (if unat c < 65535 then c + 1 else c)"

definition play_turn :: "game \<Rightarrow> u32 \<Rightarrow> fault + game" where
  "play_turn g weight =
     (if A_to_move g
      then (case takeTurn weight (player_A g) (boxes g) of
              Inl e \<Rightarrow> Inl e
            | Inr (p, bs) \<Rightarrow> Inr (g\<lparr>boxes := bs, player_A := p, count := next_count (count g)\<rparr>))
      else (case takeTurn weight (player_B g) (boxes g) of
              Inl e \<Rightarrow> Inl e
            | Inr (p, bs) \<Rightarrow> Inr (g\<lparr>boxes := bs, player_B := p, count := next_count (count g)\<rparr>)))"

fun play_loop :: "game \<Rightarrow> u32 list \<Rightarrow> fault + game" where
  "play_loop g [] = Inr g"
| "play_loop g (weight # input_weights) =
     (case play_turn g weight of
        Inl e \<Rightarrow> Inl e
      | Inr g' \<Rightarrow> play_loop g' input_weights)"

text \<open>\<^verbatim>\<open>play\<close> returns the pair of scores; the line it prints is not modelled.\<close>

definition play :: "u32 list \<Rightarrow> fault + (double \<times> double)" where
  "play input_weights =
     (case play_loop new_game input_weights of
        Inl e \<Rightarrow> Inl e
      | Inr g \<Rightarrow> Inr (getScore (player_A g), getScore (player_B g)))"

section \<open>The boxes on the heap\<close>

text \<open>
  In the C++ the four boxes are heap objects, created by \<^verbatim>\<open>std::make_unique\<close> and owned
  by the \<^verbatim>\<open>unique_ptr\<close>s of the vector \<^verbatim>\<open>boxes\<close>, a local of \<^verbatim>\<open>play\<close> like the two
  players and the counter; \<^verbatim>\<open>play\<close> reads no static or global variable. What a call
  can find of earlier calls is therefore the heap and the standard output. The store
  holds both: a cell of the heap is a live box or \<open>None\<close>, an address is an index into
  \<open>cells\<close>, and an allocation takes the next address. The functions below are
  \<^verbatim>\<open>findSmallestBox\<close>, \<^verbatim>\<open>takeTurn\<close> and \<^verbatim>\<open>play\<close> once more, with the vector holding
  addresses and every box read and written through the store.
\<close>

record store =
  cells :: "box option list"
  printed :: "(double \<times> double) list"

definition make_unique :: "box \<Rightarrow> store \<Rightarrow> nat \<times> store" where
  "make_unique b s = (length (cells s), s\<lparr>cells := cells s @ [Some b]\<rparr>)"

definition deref :: "store \<Rightarrow> nat \<Rightarrow> fault + box" where
  "deref s p =
     (if p < length (cells s)
      then (case cells s ! p of None \<Rightarrow> Inl BadPointer | Some b \<Rightarrow> Inr b)
      else Inl BadPointer)"

definition destroy :: "nat \<Rightarrow> store \<Rightarrow> store" where
  "destroy p s = s\<lparr>cells := (cells s)[p := None]\<rparr>"

function findSmallestBox_ptr_loop :: "store \<Rightarrow> nat list \<Rightarrow> nat \<Rightarrow> u16 \<Rightarrow> fault + u16" where
  "findSmallestBox_ptr_loop s ptrs idx small_idx =
     (if idx < length ptrs
      then (case deref s (ptrs ! idx) of
              Inl e \<Rightarrow> Inl e
            | Inr lhs \<Rightarrow>
                (case deref s (ptrs ! unat small_idx) of
                   Inl e \<Rightarrow> Inl e
                 | Inr rhs \<Rightarrow>
                     findSmallestBox_ptr_loop s ptrs (idx + 1)
                       (if box_less lhs rhs then of_nat idx else small_idx)))
      else Inr small_idx)"
  by pat_completeness auto
termination
  by (relation "measure (\<lambda>(s, ptrs, idx, small_idx). length ptrs - idx)") auto

declare findSmallestBox_ptr_loop.simps [simp del]

definition findSmallestBox_ptr :: "store \<Rightarrow> nat list \<Rightarrow> fault + u16" where
  "findSmallestBox_ptr s ptrs = findSmallestBox_ptr_loop s ptrs 1 0"

definition takeTurn_ptr ::
  "u32 \<Rightarrow> player \<Rightarrow> nat list \<Rightarrow> store \<Rightarrow> fault + (player \<times> store)" where
  "takeTurn_ptr input_weight p ptrs s =
     (case findSmallestBox_ptr s ptrs of
        Inl e \<Rightarrow> Inl e
      | Inr small \<Rightarrow>
          (let small_idx = unat small
           in if length ptrs \<le> small_idx then Inl BadIndex
              else
                (case deref s (ptrs ! small_idx) of
                   Inl e \<Rightarrow> Inl e
                 | Inr b0 \<Rightarrow>
                     (let b = boxAbsorb b0 input_weight;
                          s' = s\<lparr>cells := (cells s)[ptrs ! small_idx := Some b]\<rparr>
                      in case calcScore b of
                           Inl e \<Rightarrow> Inl e
                         | Inr sc \<Rightarrow> Inr (p\<lparr>m_score := dadd (m_score p) sc\<rparr>, s')))))"

fun play_ptr_loop ::
  "nat list \<Rightarrow> u16 \<Rightarrow> player \<Rightarrow> player \<Rightarrow> store \<Rightarrow> u32 list \<Rightarrow> fault + (player \<times> player \<times> store)" where
  "play_ptr_loop ptrs c pa pb s [] = Inr (pa, pb, s)"
| "play_ptr_loop ptrs c pa pb s (weight # input_weights) =
     (if unat c mod 2 = 0
      then (case takeTurn_ptr weight pa ptrs s of
              Inl e \<Rightarrow> Inl e
            | Inr (pa', s') \<Rightarrow> play_ptr_loop ptrs (next_count c) pa' pb s' input_weights)
      else (case takeTurn_ptr weight pb ptrs s of
              Inl e \<Rightarrow> Inl e
            | Inr (pb', s') \<Rightarrow> play_ptr_loop ptrs (next_count c) pa pb' s' input_weights))"

text \<open>
  A call of \<^verbatim>\<open>play\<close> in the store \<open>s0\<close>: it allocates the four boxes, runs the loop,
  prints the scores, and on return the vector destroys the boxes it owns.
\<close>

definition play_st :: "store \<Rightarrow> u32 list \<Rightarrow> (fault + (double \<times> double)) \<times> store" where
  "play_st s0 input_weights =
     (case make_unique (makeGreenBox (d_lit 0)) s0 of (p0, s1) \<Rightarrow>
      case make_unique (makeGreenBox (d_lit (1 / 10))) s1 of (p1, s2) \<Rightarrow>
      case make_unique (makeBlueBox (d_lit (2 / 10))) s2 of (p2, s3) \<Rightarrow>
      case make_unique (makeBlueBox (d_lit (3 / 10))) s3 of (p3, s4) \<Rightarrow>
        (case play_ptr_loop [p0, p1, p2, p3] 0 new_player new_player s4 input_weights of
           Inl e \<Rightarrow> (Inl e, s4)
         | Inr (pa, pb, s) \<Rightarrow>
             (Inr (getScore pa, getScore pb),
              fold destroy [p0, p1, p2, p3]
                (s\<lparr>printed := printed s @ [(getScore pa, getScore pb)]\<rparr>))))"

section \<open>Notions used to state the properties\<close>

text \<open>
  A double that is neither NaN nor negative: a non-negative rational that rounding
  leaves unchanged, or the positive infinity.
\<close>

definition dnonneg :: "double \<Rightarrow> bool" where
  "dnonneg d = (case d of Finite q \<Rightarrow> 0 \<le> q \<and> fl q = q | PInf \<Rightarrow> True | _ \<Rightarrow> False)"

text \<open>
  \<open>first_min ws i\<close>: index \<open>i\<close> holds a minimum of \<open>ws\<close>, and every earlier entry is
  strictly larger.
\<close>

definition first_min :: "double list \<Rightarrow> nat \<Rightarrow> bool" where
  "first_min ws i =
     (i < length ws \<and> list_all (\<lambda>w. dle (ws ! i) w) ws \<and> list_all (\<lambda>w. dless (ws ! i) w) (take i ws))"

text \<open>
  The spec's score of the windowed-mean box: the square of the mean of the last
  \<open>min 3 (length history)\<close> weights, the sum taken exactly, the division and the square
  in double arithmetic.
\<close>

definition windowed_mean_square :: "u32 list \<Rightarrow> double" where
  "windowed_mean_square history =
     (let w = drop (length history - min 3 (length history)) history;
          mean = ddiv (Finite (of_nat (sum_list (map unat w)))) (Finite (of_nat (length w)))
      in dmul mean mean)"

text \<open>
  The spec's score of the min/max pairing box, \<open>(a + b) (a + b + 1) / 2 + b\<close> in double
  arithmetic on operands that are converted before they are added.
\<close>

definition cantor_pairing :: "double \<Rightarrow> double \<Rightarrow> double" where
  "cantor_pairing a b =
     (let sum = dadd a b
      in dadd (ddiv (dmul sum (dadd sum (Finite 1))) (Finite 2)) b)"

text \<open>The weight a box reaches from \<open>init\<close> by adding the tokens one at a time, each sum rounded.\<close>

definition running_weight :: "double \<Rightarrow> u32 list \<Rightarrow> double" where
  "running_weight init ws = foldl (\<lambda>a w. dadd a (of_u32 w)) init ws"

text \<open>
  Every box of the game has the kind it started with, and its weight is the running sum
  of its initial weight and its history.
\<close>

definition weights_ok :: "box list \<Rightarrow> bool" where
  "weights_ok bs =
     list_all2
       (\<lambda>b b0. kind b = kind b0 \<and>
          m_weight b = running_weight (m_weight b0) (absorbed_weights b))
       bs (boxes new_game)"

text \<open>The invariant of the game loop used in the proofs below.\<close>

definition game_ok :: "game \<Rightarrow> bool" where
  "game_ok g =
     (length (boxes g) = 4 \<and> dnonneg (m_score (player_A g)) \<and> dnonneg (m_score (player_B g)))"

text \<open>The state of the game after \<open>n\<close> tokens of weight zero.\<close>

definition zeros_game :: "nat \<Rightarrow> game" where
  "zeros_game n =
     \<lparr>boxes = [\<lparr>kind = GreenBox, m_weight = Finite 0, absorbed_weights = replicate n 0\<rparr>,
               makeGreenBox (d_lit (1 / 10)),
               makeBlueBox (d_lit (2 / 10)), makeBlueBox (d_lit (3 / 10))],
      count = of_nat (min n 65535), player_A = new_player, player_B = new_player\<rparr>"

section \<open>The binary exponent\<close>

lemma bitlen_pos: "0 < x \<Longrightarrow> 1 \<le> bitlen x"
  using bitlen_nonneg [of x] bitlen_eq_zero_iff [of x] by linarith

lemma pow2_less_iff: "(2::rat) powi a < 2 powi b \<longleftrightarrow> a < b"
proof
  assume h: "(2::rat) powi a < 2 powi b"
  show "a < b"
  proof (rule ccontr)
    assume "\<not> a < b"
    then have "b \<le> a" by simp
    then have "(2::rat) powi b \<le> 2 powi a" by (rule power_int_increasing) simp
    with h show False by simp
  qed
next
  assume "a < b"
  then show "(2::rat) powi a < 2 powi b" by (rule power_int_strict_increasing) simp
qed

lemma pow2_le_iff: "(2::rat) powi a \<le> 2 powi b \<longleftrightarrow> a \<le> b"
  using pow2_less_iff [of b a] by (simp add: not_less [symmetric])

lemma pow2_pos: "0 < (2::rat) powi a"
  by (simp add: zero_less_power_int)

lemma flog2_bounds_ge1:
  assumes "1 \<le> x"
  shows "2 powi flog2 x \<le> x" and "x < 2 powi (flog2 x + 1)"
proof -
  let ?n = "\<lfloor>x\<rfloor>"
  have n: "0 < ?n" using assms by simp
  have b: "1 \<le> bitlen ?n" by (rule bitlen_pos [OF n])
  have e: "flog2 x = bitlen ?n - 1" using assms by (simp add: flog2_def)
  from bitlen_bounds [OF n] have lo: "(2::int) ^ nat (bitlen ?n - 1) \<le> ?n"
    and hi: "?n < 2 ^ nat (bitlen ?n)" by auto
  have "(of_int ((2::int) ^ nat (bitlen ?n - 1)) :: rat) \<le> of_int ?n"
    using lo by (simp only: of_int_le_iff)
  also have "\<dots> \<le> x" by simp
  finally show "2 powi flog2 x \<le> x"
    using b by (simp add: e power_int_def)
  have "?n + 1 \<le> 2 ^ nat (bitlen ?n)" using hi by simp
  then have "(of_int (?n + 1) :: rat) \<le> of_int (2 ^ nat (bitlen ?n))"
    by (simp only: of_int_le_iff)
  moreover have "x < of_int (?n + 1)" by linarith
  ultimately have "x < 2 ^ nat (bitlen ?n)" by simp
  then show "x < 2 powi (flog2 x + 1)"
    using b by (simp add: e power_int_def)
qed

lemma flog2_bounds_lt1:
  assumes "0 < x" "x < 1"
  shows "2 powi flog2 x \<le> x" and "x < 2 powi (flog2 x + 1)"
proof -
  let ?y = "1 / x"
  let ?m = "\<lceil>?y\<rceil>"
  let ?c = "bitlen (?m - 1)"
  have y: "1 < ?y" using assms by simp
  have m: "0 < ?m - 1" using y by linarith
  have c: "1 \<le> ?c" by (rule bitlen_pos [OF m])
  have e: "flog2 x = - ?c" using assms by (simp add: flog2_def)
  from bitlen_bounds [OF m] have lo: "(2::int) ^ nat (?c - 1) \<le> ?m - 1"
    and hi: "?m - 1 < 2 ^ nat ?c" by auto
  have "?m \<le> 2 ^ nat ?c" using hi by simp
  then have "(of_int ?m :: rat) \<le> of_int (2 ^ nat ?c)" by (simp only: of_int_le_iff)
  moreover have "?y \<le> of_int ?m" by (rule le_of_int_ceiling)
  moreover have "(of_int (2 ^ nat ?c) :: rat) = 2 ^ nat ?c" by simp
  ultimately have "?y \<le> 2 ^ nat ?c" by (simp only: order_trans)
  then have "1 / 2 ^ nat ?c \<le> x"
    using assms(1) by (simp add: field_simps)
  then show "2 powi flog2 x \<le> x"
    using c by (simp add: e power_int_def field_simps)
  have "(of_int (2 ^ nat (?c - 1)) :: rat) \<le> of_int (?m - 1)"
    using lo by (simp only: of_int_le_iff)
  moreover have "of_int (?m - 1) < ?y" by linarith
  ultimately have "(2::rat) ^ nat (?c - 1) < ?y" by simp
  then have "x < 1 / 2 ^ nat (?c - 1)"
    using assms(1) by (simp add: field_simps)
  then show "x < 2 powi (flog2 x + 1)"
    using c assms by (simp add: e power_int_def field_simps)
qed

lemma flog2_bounds:
  assumes "0 < x"
  shows "2 powi flog2 x \<le> x" and "x < 2 powi (flog2 x + 1)"
  using assms flog2_bounds_ge1 [of x] flog2_bounds_lt1 [of x]
  by (cases "1 \<le> x"; simp)+

lemma flog2_unique:
  assumes "(2::rat) powi e \<le> x" "x < 2 powi (e + 1)"
  shows "flog2 x = e"
proof -
  have x: "0 < x" by (rule less_le_trans [OF pow2_pos assms(1)])
  have "(2::rat) powi e < 2 powi (flog2 x + 1)"
    using assms(1) flog2_bounds(2) [OF x] by simp
  then have 1: "e < flog2 x + 1" by (simp only: pow2_less_iff)
  have "(2::rat) powi flog2 x < 2 powi (e + 1)"
    using assms(2) flog2_bounds(1) [OF x] by simp
  then have 2: "flog2 x < e + 1" by (simp only: pow2_less_iff)
  from 1 2 show ?thesis by simp
qed

lemma flog2_mono:
  assumes "0 < x" "x \<le> y"
  shows "flog2 x \<le> flog2 y"
proof -
  have y: "0 < y" using assms by simp
  have "(2::rat) powi flog2 x < 2 powi (flog2 y + 1)"
    using flog2_bounds(1) [OF assms(1)] flog2_bounds(2) [OF y] assms(2) by simp
  then show ?thesis by (simp add: pow2_less_iff)
qed


section \<open>Rounding is monotone\<close>

lemma round_even_lower: "\<lfloor>r\<rfloor> \<le> round_even r"
  by (simp add: round_even_def Let_def)

lemma round_even_upper: "round_even r \<le> \<lfloor>r\<rfloor> + 1"
  by (simp add: round_even_def Let_def)

lemma round_even_of_int [simp]: "round_even (of_int k) = k"
  by (simp add: round_even_def Let_def)

lemma round_even_mono:
  assumes "x \<le> y"
  shows "round_even x \<le> round_even y"
proof (cases "\<lfloor>x\<rfloor> = \<lfloor>y\<rfloor>")
  case True
  have "x - of_int \<lfloor>y\<rfloor> \<le> y - of_int \<lfloor>y\<rfloor>" using assms by simp
  then show ?thesis
    by (simp add: round_even_def Let_def True)
next
  case False
  have "\<lfloor>x\<rfloor> \<le> \<lfloor>y\<rfloor>" using assms by (rule floor_mono)
  with False have "\<lfloor>x\<rfloor> + 1 \<le> \<lfloor>y\<rfloor>" by simp
  with round_even_upper [of x] round_even_lower [of y] show ?thesis by linarith
qed

lemma round_even_ge: "of_int a \<le> r \<Longrightarrow> a \<le> round_even r"
  using round_even_mono [of "of_int a" r] by simp

lemma round_even_le: "r \<le> of_int b \<Longrightarrow> round_even r \<le> b"
  using round_even_mono [of r "of_int b"] by simp

lemma pow2_mult: "(2::rat) powi a * 2 powi b = 2 powi (a + b)"
  by (simp add: power_int_add)

lemma pow2_cancel: "x * 2 powi (52 - e) * 2 powi (e - 52) = (x::rat)"
  by (simp add: mult.assoc pow2_mult)

text \<open>A value on the grid of its own exponent is not changed by rounding.\<close>

lemma fl_pos_exact:
  assumes "x * 2 powi (52 - max (flog2 x) (- 1022)) = of_int k"
  shows "fl_pos x = x"
proof -
  let ?e = "max (flog2 x) (- 1022)"
  have "fl_pos x = of_int k * 2 powi (?e - 52)"
    by (simp add: fl_pos_def Let_def assms)
  also have "\<dots> = x * 2 powi (52 - ?e) * 2 powi (?e - 52)"
    by (simp only: assms)
  also have "\<dots> = x" by (rule pow2_cancel)
  finally show ?thesis .
qed

lemma fl_pos_nonneg: "0 < x \<Longrightarrow> 0 \<le> fl_pos x"
proof -
  assume x: "0 < x"
  let ?e = "max (flog2 x) (- 1022)"
  have "0 \<le> x * 2 powi (52 - ?e)" using x pow2_pos [of "52 - ?e"] by simp
  then have "(of_int 0 :: rat) \<le> x * 2 powi (52 - ?e)" by simp
  then have "0 \<le> round_even (x * 2 powi (52 - ?e))" by (rule round_even_ge)
  then show ?thesis
    using pow2_pos [of "?e - 52"] by (simp add: fl_pos_def Let_def)
qed

lemma fl_pos_upper:
  assumes "0 < x"
  shows "fl_pos x \<le> 2 powi (max (flog2 x) (- 1022) + 1)"
proof -
  let ?e = "max (flog2 x) (- 1022)"
  have "x < 2 powi (flog2 x + 1)" by (rule flog2_bounds(2) [OF assms])
  also have "\<dots> \<le> 2 powi (?e + 1)" by (simp add: pow2_le_iff)
  finally have "x * 2 powi (52 - ?e) \<le> 2 powi (?e + 1) * 2 powi (52 - ?e)"
    using pow2_pos [of "52 - ?e"] by simp
  also have "\<dots> = 2 powi 53" by (simp add: pow2_mult)
  also have "\<dots> = of_int (2 ^ 53)" by simp
  finally have "round_even (x * 2 powi (52 - ?e)) \<le> 2 ^ 53" by (rule round_even_le)
  then have "(of_int (round_even (x * 2 powi (52 - ?e))) :: rat) \<le> of_int (2 ^ 53)"
    by (simp only: of_int_le_iff)
  then have "fl_pos x \<le> of_int (2 ^ 53) * 2 powi (?e - 52)"
    using pow2_pos [of "?e - 52"] by (simp add: fl_pos_def Let_def)
  also have "\<dots> = 2 powi 53 * 2 powi (?e - 52)" by simp
  also have "\<dots> = 2 powi (53 + (?e - 52))" by (simp only: pow2_mult)
  also have "53 + (?e - 52) = ?e + 1" by simp
  finally show ?thesis .
qed

lemma fl_pos_lower:
  assumes "0 < x" "- 1022 \<le> flog2 x"
  shows "2 powi flog2 x \<le> fl_pos x"
proof -
  let ?e = "flog2 x"
  have e: "max (flog2 x) (- 1022) = ?e" using assms(2) by simp
  have "2 powi ?e * 2 powi (52 - ?e) \<le> x * 2 powi (52 - ?e)"
    using flog2_bounds(1) [OF assms(1)] pow2_pos [of "52 - ?e"] by simp
  moreover have "(2::rat) powi ?e * 2 powi (52 - ?e) = of_int (2 ^ 52)"
    by (simp add: pow2_mult)
  ultimately have "of_int (2 ^ 52) \<le> x * 2 powi (52 - ?e)" by simp
  then have "2 ^ 52 \<le> round_even (x * 2 powi (52 - ?e))" by (rule round_even_ge)
  then have "(of_int (2 ^ 52) :: rat) \<le> of_int (round_even (x * 2 powi (52 - ?e)))"
    by (simp only: of_int_le_iff)
  then have "of_int (2 ^ 52) * 2 powi (?e - 52) \<le> fl_pos x"
    using pow2_pos [of "?e - 52"] by (simp add: fl_pos_def Let_def e)
  moreover have "(of_int (2 ^ 52) :: rat) * 2 powi (?e - 52) = 2 powi ?e"
  proof -
    have "(of_int (2 ^ 52) :: rat) * 2 powi (?e - 52) = 2 powi 52 * 2 powi (?e - 52)" by simp
    also have "\<dots> = 2 powi (52 + (?e - 52))" by (simp only: pow2_mult)
    also have "52 + (?e - 52) = ?e" by simp
    finally show ?thesis .
  qed
  ultimately show ?thesis by simp
qed

lemma fl_pos_mono:
  assumes "0 < x" "x \<le> y"
  shows "fl_pos x \<le> fl_pos y"
proof -
  let ?ex = "max (flog2 x) (- 1022)" and ?ey = "max (flog2 y) (- 1022)"
  have y: "0 < y" using assms by simp
  have le: "?ex \<le> ?ey" using flog2_mono [OF assms] by simp
  show ?thesis
  proof (cases "?ex = ?ey")
    case True
    have "x * 2 powi (52 - ?ey) \<le> y * 2 powi (52 - ?ey)"
      using assms(2) pow2_pos [of "52 - ?ey"] by simp
    then have "round_even (x * 2 powi (52 - ?ey)) \<le> round_even (y * 2 powi (52 - ?ey))"
      by (rule round_even_mono)
    then have "(of_int (round_even (x * 2 powi (52 - ?ey))) :: rat)
        \<le> of_int (round_even (y * 2 powi (52 - ?ey)))"
      by (simp only: of_int_le_iff)
    then show ?thesis
      using pow2_pos [of "?ey - 52"] by (simp add: fl_pos_def Let_def True)
  next
    case False
    with le have lt: "?ex < ?ey" by linarith
    then have ny: "- 1022 \<le> flog2 y" and ey: "?ey = flog2 y" by arith+
    have "fl_pos x \<le> 2 powi (?ex + 1)" by (rule fl_pos_upper [OF assms(1)])
    also have "\<dots> \<le> 2 powi flog2 y"
    proof -
      have "?ex + 1 \<le> flog2 y" using lt ey by linarith
      then show ?thesis by (simp only: pow2_le_iff)
    qed
    also have "\<dots> \<le> fl_pos y" by (rule fl_pos_lower [OF y ny])
    finally show ?thesis .
  qed
qed

lemma fl_nonneg: "0 \<le> x \<Longrightarrow> 0 \<le> fl x"
  by (simp add: fl_def fl_pos_nonneg)

lemma fl_zero [simp]: "fl 0 = 0"
  by (simp add: fl_def)

lemma fl_minus: "fl (- x) = - fl x"
  by (simp add: fl_def)

lemma fl_mono:
  assumes "x \<le> y"
  shows "fl x \<le> fl y"
proof -
  consider "0 < x" | "x \<le> 0" "0 \<le> y" | "y < 0" by linarith
  then show ?thesis
  proof cases
    case 1
    then show ?thesis using assms fl_pos_mono [of x y] by (simp add: fl_def)
  next
    case 2
    have "fl x \<le> 0" using fl_nonneg [of "- x"] 2(1) by (simp add: fl_minus)
    moreover have "0 \<le> fl y" using 2(2) by (rule fl_nonneg)
    ultimately show ?thesis by simp
  next
    case 3
    then have "fl_pos (- y) \<le> fl_pos (- x)" using assms fl_pos_mono [of "- y" "- x"] by simp
    then show ?thesis using 3 assms by (simp add: fl_def)
  qed
qed


section \<open>Rounding is idempotent and exact on small integers\<close>

lemma flog2_less: "0 < x \<Longrightarrow> x < 2 powi b \<Longrightarrow> flog2 x < b"
proof -
  assume x: "0 < x" and b: "x < 2 powi b"
  have "(2::rat) powi flog2 x < 2 powi b"
    using flog2_bounds(1) [OF x] b by simp
  then show ?thesis by (simp only: pow2_less_iff)
qed

text \<open>A positive multiple of \<open>2 powi g\<close> with at most 53 significant bits is a double.\<close>

lemma fl_pos_grid:
  assumes "x = of_int m * 2 powi g" "flog2 x - 52 \<le> g" "- 1074 \<le> g"
  shows "fl_pos x = x"
proof -
  let ?e = "max (flog2 x) (- 1022)"
  have g: "0 \<le> g + (52 - ?e)" using assms(2,3) by simp
  have "x * 2 powi (52 - ?e) = of_int m * (2 powi g * 2 powi (52 - ?e))"
    by (simp add: assms(1) mult.assoc)
  also have "\<dots> = of_int m * 2 powi (g + (52 - ?e))" by (simp only: pow2_mult)
  also have "\<dots> = of_int m * 2 ^ nat (g + (52 - ?e))"
    using g by (simp only: power_int_nonneg_exp)
  also have "\<dots> = of_int (m * 2 ^ nat (g + (52 - ?e)))" by simp
  finally show ?thesis by (rule fl_pos_exact)
qed

lemma fl_pos_idem:
  assumes "0 < x" "0 < fl_pos x"
  shows "fl_pos (fl_pos x) = fl_pos x"
proof -
  let ?e = "max (flog2 x) (- 1022)"
  let ?k = "round_even (x * 2 powi (52 - ?e))"
  let ?r = "fl_pos x"
  have r: "?r = of_int ?k * 2 powi (?e - 52)" by (simp add: fl_pos_def Let_def)
  have up: "?r \<le> 2 powi (?e + 1)" by (rule fl_pos_upper [OF assms(1)])
  show ?thesis
  proof (cases "?r = 2 powi (?e + 1)")
    case True
    have 1: "?r = of_int 1 * 2 powi (?e + 1)" using True by simp
    have "flog2 ?r = ?e + 1"
      by (rule flog2_unique) (simp_all add: True pow2_less_iff)
    then have 2: "flog2 ?r - 52 \<le> ?e + 1" by simp
    have 3: "- 1074 \<le> ?e + 1" by simp
    show ?thesis by (rule fl_pos_grid [OF 1 2 3])
  next
    case False
    with up have lt: "?r < 2 powi (?e + 1)" by simp
    have "flog2 ?r < ?e + 1" by (rule flog2_less [OF assms(2) lt])
    then have 2: "flog2 ?r - 52 \<le> ?e - 52" by simp
    have 3: "- 1074 \<le> ?e - 52" by simp
    show ?thesis by (rule fl_pos_grid [OF r 2 3])
  qed
qed

lemma fl_idem [simp]: "fl (fl x) = fl x"
proof -
  consider "x = 0" | "0 < x" | "x < 0" by linarith
  then show ?thesis
  proof cases
    case 1
    then show ?thesis by simp
  next
    case 2
    then have "0 \<le> fl_pos x" by (rule fl_pos_nonneg)
    then show ?thesis using 2 fl_pos_idem [of x] by (auto simp: fl_def)
  next
    case 3
    then have "0 \<le> fl_pos (- x)" using fl_pos_nonneg [of "- x"] by simp
    then show ?thesis using 3 fl_pos_idem [of "- x"] by (auto simp: fl_def)
  qed
qed

lemma fl_of_nat:
  assumes "n < 2 ^ 53"
  shows "fl (of_nat n) = of_nat n"
proof (cases "n = 0")
  case True
  then show ?thesis by simp
next
  case False
  let ?x = "of_nat n :: rat"
  have x: "0 < ?x" using False by simp
  have "?x < of_nat (2 ^ 53)" using assms by (simp only: of_nat_less_iff)
  then have "?x < 2 powi 53" by simp
  then have "flog2 ?x < 53" by (rule flog2_less [OF x])
  then have 2: "flog2 ?x - 52 \<le> 0" by simp
  have 1: "?x = of_int (int n) * 2 powi 0" by simp
  have "fl_pos ?x = ?x" by (rule fl_pos_grid [OF 1 2]) simp
  then show ?thesis using x by (simp add: fl_def)
qed

lemma fl_half_nat:
  assumes "n < 2 ^ 53"
  shows "fl (of_nat n / 2) = of_nat n / 2"
proof (cases "n = 0")
  case True
  then show ?thesis by simp
next
  case False
  let ?x = "of_nat n / 2 :: rat"
  have x: "0 < ?x" using False by simp
  have "(of_nat n :: rat) < of_nat (2 ^ 53)" using assms by (simp only: of_nat_less_iff)
  then have "?x < 2 powi 52" by simp
  then have "flog2 ?x < 52" by (rule flog2_less [OF x])
  then have 2: "flog2 ?x - 52 \<le> - 1" by simp
  have 1: "?x = of_int (int n) * 2 powi (- 1)" by simp
  have "fl_pos ?x = ?x" by (rule fl_pos_grid [OF 1 2]) simp
  then show ?thesis using x by (simp add: fl_def)
qed

lemma round_rat_of_nat:
  assumes "n < 2 ^ 53"
  shows "round_rat (of_nat n) = Finite (of_nat n)"
proof -
  have "(of_nat n :: rat) < of_nat (2 ^ 53)" using assms by (simp only: of_nat_less_iff)
  then have "(of_nat n :: rat) < 2 ^ 53" by simp
  moreover have "(2::rat) ^ 53 \<le> 2 ^ 1024" by (rule power_increasing) simp_all
  ultimately have "(of_nat n :: rat) < 2 ^ 1024" by (rule less_le_trans)
  moreover have "- (2 ^ 1024) < (of_nat n :: rat)"
    by (rule less_le_trans [of _ 0]) simp_all
  ultimately show ?thesis
    by (simp add: round_rat_def Let_def fl_of_nat [OF assms] not_le)
qed


section \<open>The order of doubles and the selection loop\<close>

lemma dle_refl: "a \<noteq> NaN \<Longrightarrow> dle a a"
  by (cases a) simp_all

lemma not_dless_iff: "a \<noteq> NaN \<Longrightarrow> b \<noteq> NaN \<Longrightarrow> (\<not> dless a b) = dle b a"
  by (cases a; cases b) auto

lemma dless_imp_dle: "dless a b \<Longrightarrow> dle a b"
  by (cases a; cases b) auto

lemma dless_dle_trans: "dless a b \<Longrightarrow> dle b c \<Longrightarrow> dless a c"
  by (cases a; cases b; cases c) auto

lemma dle_trans: "dle a b \<Longrightarrow> dle b c \<Longrightarrow> dle a c"
  by (cases a; cases b; cases c) auto

lemma first_min_iff:
  "first_min ws i \<longleftrightarrow>
     i < length ws \<and> (\<forall>j<length ws. dle (ws ! i) (ws ! j)) \<and> (\<forall>j<i. dless (ws ! i) (ws ! j))"
  by (auto simp: first_min_def list_all_length)

lemma unat_u16_of_nat: "idx < 65536 \<Longrightarrow> unat (of_nat idx :: u16) = idx"
  by (simp add: unat_of_nat)

lemma findSmallestBox_loop_bound:
  "unat small_idx < length bs \<Longrightarrow> length bs \<le> 65536 \<Longrightarrow>
   unat (findSmallestBox_loop bs idx small_idx) < length bs"
proof (induction bs idx small_idx rule: findSmallestBox_loop.induct)
  case (1 boxes idx small_idx)
  show ?case
  proof (cases "idx < length boxes")
    case True
    let ?s = "if box_less (boxes ! idx) (boxes ! unat small_idx) then of_nat idx else small_idx"
    have "idx < 65536" using True "1.prems"(2) by simp
    then have "unat ?s < length boxes"
      using True "1.prems"(1) by (simp add: unat_u16_of_nat)
    then have "unat (findSmallestBox_loop boxes (idx + 1) ?s) < length boxes"
      using "1.IH" [OF True] "1.prems"(2) by simp
    then show ?thesis
      using True by (subst findSmallestBox_loop.simps) simp
  next
    case False
    then show ?thesis
      using "1.prems"(1) by (subst findSmallestBox_loop.simps) simp
  qed
qed

lemma first_min_step_keep:
  assumes "first_min (take idx ws) s" "idx < length ws" "dle (ws ! s) (ws ! idx)"
  shows "first_min (take (Suc idx) ws) s"
proof -
  from assms(1) have s: "s < idx"
    and le: "\<forall>j<idx. dle (ws ! s) (ws ! j)"
    and lt: "\<forall>j. j < s \<longrightarrow> dless (ws ! s) (ws ! j)"
    using assms(2) by (auto simp: first_min_iff)
  have "\<forall>j<Suc idx. dle (ws ! s) (ws ! j)"
    using le assms(3) by (auto simp: less_Suc_eq)
  then show ?thesis
    using s lt assms(2) by (auto simp: first_min_iff)
qed

lemma first_min_step_new:
  assumes "first_min (take idx ws) s" "idx < length ws" "dless (ws ! idx) (ws ! s)"
  shows "first_min (take (Suc idx) ws) idx"
proof -
  from assms(1) have s: "s < idx"
    and le: "\<forall>j<idx. dle (ws ! s) (ws ! j)"
    using assms(2) by (auto simp: first_min_iff)
  have lt: "\<forall>j<idx. dless (ws ! idx) (ws ! j)"
    using le assms(3) by (blast intro: dless_dle_trans)
  have "dle (ws ! idx) (ws ! idx)"
    using assms(3) by (cases "ws ! idx") auto
  then have "\<forall>j<Suc idx. dle (ws ! idx) (ws ! j)"
    using lt by (auto simp: less_Suc_eq intro: dless_imp_dle)
  then show ?thesis
    using lt assms(2) by (auto simp: first_min_iff)
qed

lemma findSmallestBox_loop_first_min:
  "length bs \<le> 65536 \<Longrightarrow> NaN \<notin> set (map m_weight bs) \<Longrightarrow>
   idx \<le> length bs \<Longrightarrow>
   first_min (take idx (map m_weight bs)) (unat small_idx) \<Longrightarrow>
   first_min (map m_weight bs) (unat (findSmallestBox_loop bs idx small_idx))"
proof (induction bs idx small_idx rule: findSmallestBox_loop.induct)
  case (1 boxes idx small_idx)
  let ?W = "map m_weight boxes"
  let ?s = "unat small_idx"
  show ?case
  proof (cases "idx < length boxes")
    case False
    with "1.prems"(3) have "take idx ?W = ?W" by simp
    with "1.prems"(4) False show ?thesis
      by (subst findSmallestBox_loop.simps) simp
  next
    case True
    have i16: "idx < 65536" using True "1.prems"(1) by simp
    have len: "idx < length ?W" using True by simp
    have s: "?s < idx" using "1.prems"(4) by (simp add: first_min_iff)
    have nn: "?W ! idx \<noteq> NaN" "?W ! ?s \<noteq> NaN"
      using "1.prems"(2) True s by (metis len nth_mem less_trans)+
    let ?new = "if box_less (boxes ! idx) (boxes ! ?s) then of_nat idx else small_idx"
    have "first_min (take (Suc idx) ?W) (unat ?new)"
    proof (cases "box_less (boxes ! idx) (boxes ! ?s)")
      case b: True
      then have "dless (?W ! idx) (?W ! ?s)" using True s by (simp add: box_less_def)
      from first_min_step_new [OF "1.prems"(4) len this] show ?thesis
        using b i16 by (simp add: unat_u16_of_nat)
    next
      case b: False
      then have "\<not> dless (?W ! idx) (?W ! ?s)" using True s by (simp add: box_less_def)
      then have "dle (?W ! ?s) (?W ! idx)" using nn by (simp add: not_dless_iff)
      from first_min_step_keep [OF "1.prems"(4) len this] show ?thesis
        using b by simp
    qed
    then have "first_min ?W (unat (findSmallestBox_loop boxes (idx + 1) ?new))"
      using "1.IH" [OF True "1.prems"(1,2)] True by simp
    then show ?thesis
      using True by (subst findSmallestBox_loop.simps) simp
  qed
qed

lemma findSmallestBox_first_min:
  assumes "bs \<noteq> []" "length bs \<le> 65536" "NaN \<notin> set (map m_weight bs)"
  shows "first_min (map m_weight bs) (unat (findSmallestBox bs))"
proof -
  have "m_weight (bs ! 0) \<noteq> NaN" using assms(1,3) by (metis length_greater_0_conv nth_mem image_eqI set_map)
  then have "first_min (take 1 (map m_weight bs)) (unat (0 :: u16))"
    using assms(1) by (cases bs) (simp_all add: first_min_def dle_refl)
  then show ?thesis
    unfolding findSmallestBox_def
    using assms by (intro findSmallestBox_loop_first_min) (simp_all add: Suc_le_eq)
qed


section \<open>Non-negative doubles\<close>

lemma dnonneg_Finite: "dnonneg (Finite q) \<longleftrightarrow> 0 \<le> q \<and> fl q = q"
  by (simp add: dnonneg_def)

lemma dnonneg_simps [simp]: "dnonneg PInf" "\<not> dnonneg NInf" "\<not> dnonneg NaN"
  by (simp_all add: dnonneg_def)

lemma round_rat_nonneg: "0 \<le> x \<Longrightarrow> dnonneg (round_rat x)"
  using fl_nonneg [of x] by (simp add: round_rat_def Let_def dnonneg_def)

lemma dnonneg_of_u32: "dnonneg (of_u32 w)"
proof -
  have "unat w < 2 ^ LENGTH(32)" by (rule unsigned_less)
  then have "unat w < 2 ^ 53" by simp
  then show ?thesis by (simp add: of_u32_def dnonneg_def fl_of_nat del: of_nat_unat)
qed

lemma dadd_nonneg: "dnonneg a \<Longrightarrow> dnonneg b \<Longrightarrow> dnonneg (dadd a b)"
  by (cases a; cases b) (simp_all add: round_rat_nonneg dnonneg_Finite)

lemma dmul_Finite_nonneg: "0 \<le> a \<Longrightarrow> 0 \<le> b \<Longrightarrow> dnonneg (dmul (Finite a) (Finite b))"
  by (simp add: dmul_def round_rat_nonneg)

lemma ddiv_nonneg: "dnonneg a \<Longrightarrow> 0 < b \<Longrightarrow> dnonneg (ddiv a (Finite b))"
  by (cases a) (simp_all add: ddiv_def round_rat_nonneg dnonneg_Finite dinf_def dsign_neg_def is_inf_def)

text \<open>Adding a non-negative double never decreases a non-negative double.\<close>

lemma dle_dadd:
  assumes "dnonneg a" "dnonneg b"
  shows "dle a (dadd a b)"
proof (cases a)
  case (Finite p)
  note a = this
  show ?thesis
  proof (cases b)
    case (Finite q)
    have p: "0 \<le> p" "fl p = p" and q: "0 \<le> q"
      using assms a Finite by (simp_all add: dnonneg_Finite)
    have "fl p \<le> fl (p + q)" using q by (intro fl_mono) simp
    then have "p \<le> fl (p + q)" by (simp add: p)
    moreover have "\<not> fl (p + q) \<le> - (2 ^ 1024)"
    proof -
      have "- (2 ^ 1024) < (0::rat)" by simp
      also have "0 \<le> fl (p + q)" using p q by (intro fl_nonneg) simp
      finally show ?thesis by simp
    qed
    ultimately show ?thesis by (simp add: a Finite round_rat_def Let_def)
  qed (use assms a in simp_all)
next
  case PInf
  then show ?thesis using assms by (cases b) simp_all
qed (use assms in simp_all)

lemma unat_u32_less: "unat (w :: u32) < 4294967296"
  using unsigned_less [of w, where 'a = nat] by simp

text \<open>The accumulation loop of the green box is exact while the sum stays below \<open>2 ^ 53\<close>.\<close>

lemma fold_dadd_exact:
  "n + sum_list (map unat rw) < 2 ^ 53 \<Longrightarrow>
   fold (\<lambda>weight m. dadd m (of_u32 weight)) rw (Finite (of_nat n))
     = Finite (of_nat (n + sum_list (map unat rw)))"
proof (induction rw arbitrary: n)
  case Nil
  then show ?case by simp
next
  case (Cons w rw)
  have "n + unat w < 2 ^ 53" using Cons.prems by simp
  then have "dadd (Finite (of_nat n)) (of_u32 w) = Finite (of_nat (n + unat w))"
    using round_rat_of_nat [of "n + unat w"] by (simp add: of_u32_def del: of_nat_unat)
  then show ?case
    using Cons.IH [of "n + unat w"] Cons.prems by (simp add: add.assoc del: of_nat_unat)
qed


section \<open>Scores\<close>

lemma drop_last3:
  assumes "3 \<le> length aw"
  shows "drop (length aw - 3) aw = [aw ! (length aw - 3), aw ! (length aw - 2), aw ! (length aw - 1)]"
proof (rule nth_equalityI)
  show "length (drop (length aw - 3) aw) = length [aw ! (length aw - 3), aw ! (length aw - 2), aw ! (length aw - 1)]"
    using assms by simp
next
  fix i assume "i < length (drop (length aw - 3) aw)"
  then have "i < 3" using assms by simp
  then consider "i = 0" | "i = 1" | "i = 2" by linarith
  then show "drop (length aw - 3) aw ! i = [aw ! (length aw - 3), aw ! (length aw - 2), aw ! (length aw - 1)] ! i"
  proof cases
    case 1 then show ?thesis using assms by simp
  next
    case 2
    have "length aw - 3 + 1 = length aw - 2" using assms by simp
    then show ?thesis using assms 2 by simp
  next
    case 3
    have "length aw - 3 + 2 = length aw - 1" using assms by simp
    then show ?thesis using assms 3 by simp
  qed
qed

lemma recent_weights_eq:
  "recent_weights aw = Inr (drop (length aw - min 3 (length aw)) aw)"
proof (cases "length aw < 3")
  case True
  then show ?thesis by (simp add: recent_weights_def min_def)
next
  case False
  then have 3: "3 \<le> length aw" by simp
  have "min 3 (length aw) = 3" using 3 by simp
  moreover have "length aw - 3 < length aw" "length aw - 2 < length aw" "length aw - 1 < length aw"
    using 3 by simp_all
  ultimately show ?thesis
    using False by (simp add: recent_weights_def vec_at_def Let_def drop_last3 [OF 3])
qed

lemma sum_list_unat_bound: "sum_list (map unat (rw :: u32 list)) \<le> length rw * 4294967295"
proof (induction rw)
  case Nil
  then show ?case by simp
next
  case (Cons w rw)
  have "unat w \<le> 4294967295" using unat_u32_less [of w] by simp
  then show ?case using Cons.IH by simp
qed

lemma green_sum_exact:
  assumes "length rw \<le> 3"
  shows "fold (\<lambda>weight m. dadd m (of_u32 weight)) rw (Finite 0)
           = Finite (of_nat (sum_list (map unat rw)))"
proof -
  have "sum_list (map unat rw) \<le> 3 * 4294967295"
    using sum_list_unat_bound [of rw] assms
    by (meson le_trans mult_le_mono1)
  then have "0 + sum_list (map unat rw) < 2 ^ 53" by simp
  from fold_dadd_exact [OF this] show ?thesis by simp
qed

lemma of_size_small: "n \<le> 3 \<Longrightarrow> of_size n = Finite (of_nat n)"
  by (simp add: of_size_def round_rat_of_nat)

text \<open>The green box's score is the spec's windowed mean square, for every history.\<close>

lemma green_calcScore_eq: "green_calcScore aw = Inr (windowed_mean_square aw)"
proof -
  let ?rw = "drop (length aw - min 3 (length aw)) aw"
  have len: "length ?rw \<le> 3" by simp
  show ?thesis
    by (simp add: green_calcScore_def recent_weights_eq windowed_mean_square_def
        green_sum_exact [OF len] of_size_small [OF len] Let_def del: of_nat_unat length_drop)
qed

lemma fold_min_u32: "fold (\<lambda>y m. if y < m then y else m) xs (x :: u32) = Min (set (x # xs))"
proof -
  have "(\<lambda>y m :: u32. if y < m then y else m) = min" by (auto simp: fun_eq_iff min_def)
  then show ?thesis by (simp only: Min.set_eq_fold)
qed

lemma fold_max_u32: "fold (\<lambda>y m. if m < y then y else m) xs (x :: u32) = Max (set (x # xs))"
proof -
  have "(\<lambda>y m :: u32. if m < y then y else m) = max" by (auto simp: fun_eq_iff max_def)
  then show ?thesis by (simp only: Max.set_eq_fold)
qed

lemma min_element_eq: "aw \<noteq> [] \<Longrightarrow> min_element aw = Inr (Min (set aw))"
  by (cases aw) (simp_all only: min_element.simps fold_min_u32, simp)

lemma max_element_eq: "aw \<noteq> [] \<Longrightarrow> max_element aw = Inr (Max (set aw))"
  by (cases aw) (simp_all only: max_element.simps fold_max_u32, simp)

lemma blue_calcScore_eq:
  "aw \<noteq> [] \<Longrightarrow> blue_calcScore aw = Inr (pairing (Min (set aw)) (Max (set aw)))"
  by (simp add: blue_calcScore_def min_element_eq max_element_eq)

lemma of_u32_add_no_wrap:
  assumes "unat m + unat M < 2 ^ 32"
  shows "of_u32 (m + M) = dadd (of_u32 m) (of_u32 M)"
proof -
  have "unat (m + M) = unat m + unat M"
    using assms by (simp add: unat_add_lem [symmetric])
  moreover have "unat m + unat M < 2 ^ 53"
    using assms by (rule less_le_trans) simp
  ultimately show ?thesis
    using round_rat_of_nat [of "unat m + unat M"]
    by (simp add: of_u32_def del: of_nat_unat)
qed

lemma pairing_no_wrap:
  "unat m + unat M < 2 ^ 32 \<Longrightarrow> pairing m M = cantor_pairing (of_u32 m) (of_u32 M)"
  by (simp add: pairing_def cantor_pairing_def of_u32_add_no_wrap)

lemma pairing_nonneg: "dnonneg (pairing mn mx)"
proof -
  let ?a = "unat (mn + mx)"
  have "?a < 4294967296" by (rule unat_u32_less)
  then have a: "?a + 1 < 2 ^ 53" by simp
  have 1: "dadd (of_u32 (mn + mx)) (Finite 1) = Finite (of_nat (?a + 1))"
    using round_rat_of_nat [OF a] by (simp add: of_u32_def add.commute del: of_nat_unat)
  have "dnonneg (dmul (Finite (of_nat ?a)) (Finite (of_nat (?a + 1))))"
    by (rule dmul_Finite_nonneg) (rule of_nat_0_le_iff)+
  then have "dnonneg (ddiv (dmul (Finite (of_nat ?a)) (Finite (of_nat (?a + 1)))) (Finite 2))"
    by (rule ddiv_nonneg) simp
  then have "dnonneg (dadd (ddiv (dmul (Finite (of_nat ?a)) (Finite (of_nat (?a + 1)))) (Finite 2)) (of_u32 mx))"
    by (rule dadd_nonneg) (rule dnonneg_of_u32)
  then show ?thesis
    unfolding pairing_def Let_def 1 by (simp only: of_u32_def)
qed

lemma not_le_neg_big: "0 \<le> (r::rat) \<Longrightarrow> \<not> r \<le> - (2 ^ 1024)"
proof -
  assume "0 \<le> r"
  moreover have "- (2 ^ 1024) < (0::rat)" by simp
  ultimately show ?thesis by linarith
qed

lemma windowed_mean_square_nonneg:
  assumes "aw \<noteq> []"
  shows "dnonneg (windowed_mean_square aw)"
proof -
  let ?rw = "drop (length aw - min 3 (length aw)) aw"
  let ?S = "sum_list (map unat ?rw)" and ?n = "length ?rw"
  have n: "0 < ?n" "?n \<le> 3" using assms by (simp_all add: Suc_le_eq)
  have "?S \<le> ?n * 4294967295" by (rule sum_list_unat_bound)
  also have "\<dots> \<le> 3 * 4294967295" using n(2) by (rule mult_le_mono1)
  finally have S: "?S < 2 ^ 53" by simp
  let ?q = "of_nat ?S / of_nat ?n :: rat"
  have q0: "0 \<le> ?q" by simp
  have "1 \<le> ?n" using n(1) by (simp only: Suc_le_eq One_nat_def)
  then have "(of_nat 1 :: rat) \<le> of_nat ?n" by (simp only: of_nat_le_iff)
  then have "1 \<le> (of_nat ?n :: rat)" by simp
  then have "?q \<le> of_nat ?S / 1" by (rule divide_left_mono) (use assms in simp_all)
  then have "?q \<le> of_nat ?S" by simp
  then have "fl ?q \<le> fl (of_nat ?S)" by (rule fl_mono)
  also have "\<dots> = of_nat ?S" by (rule fl_of_nat [OF S])
  also have "\<dots> < of_nat (2 ^ 53)" using S by (simp only: of_nat_less_iff)
  also have "\<dots> \<le> (2::rat) ^ 1024" by simp
  finally have up: "fl ?q < 2 ^ 1024" .
  have lo: "0 \<le> fl ?q" using q0 by (rule fl_nonneg)
  then have "\<not> fl ?q \<le> - (2 ^ 1024)" by (rule not_le_neg_big)
  then have mean: "ddiv (Finite (of_nat ?S)) (Finite (of_nat ?n)) = Finite (fl ?q)"
    using n(1) up by (simp add: ddiv_def round_rat_def Let_def not_le del: length_drop)
  have "dnonneg (dmul (Finite (fl ?q)) (Finite (fl ?q)))"
    by (rule dmul_Finite_nonneg [OF lo lo])
  then show ?thesis
    unfolding windowed_mean_square_def Let_def mean .
qed

lemma calcScore_boxAbsorb:
  "\<exists>s. calcScore (boxAbsorb b w) = Inr s \<and> dnonneg s"
proof (cases "kind b")
  case PlainBox
  then show ?thesis by (simp add: calcScore_def boxAbsorb_def dnonneg_def)
next
  case GreenBox
  then show ?thesis
    by (simp add: calcScore_def boxAbsorb_def green_calcScore_eq windowed_mean_square_nonneg)
next
  case BlueBox
  then show ?thesis
    by (simp add: calcScore_def boxAbsorb_def blue_calcScore_eq pairing_nonneg)
qed


section \<open>Turns and the game loop\<close>

lemma findSmallestBox_Nil: "findSmallestBox [] = 0"
  by (simp add: findSmallestBox_def findSmallestBox_loop.simps)

lemma findSmallestBox_bound:
  "bs \<noteq> [] \<Longrightarrow> length bs \<le> 65536 \<Longrightarrow> unat (findSmallestBox bs) < length bs"
  unfolding findSmallestBox_def by (rule findSmallestBox_loop_bound) simp_all

lemma absorbed_boxAbsorb: "absorbed_weights (boxAbsorb b w) = absorbed_weights b @ [w]"
  by (simp add: boxAbsorb_def)

lemma kind_boxAbsorb: "kind (boxAbsorb b w) = kind b"
  by (simp add: boxAbsorb_def)

lemma weight_boxAbsorb: "m_weight (boxAbsorb b w) = dadd (m_weight b) (of_u32 w)"
  by (simp add: boxAbsorb_def)

lemma foldl_boxAbsorb:
  "absorbed_weights (foldl boxAbsorb b ws) = absorbed_weights b @ ws \<and>
   kind (foldl boxAbsorb b ws) = kind b \<and>
   m_weight (foldl boxAbsorb b ws) = running_weight (m_weight b) ws"
  by (induction ws arbitrary: b)
     (simp_all add: running_weight_def absorbed_boxAbsorb kind_boxAbsorb weight_boxAbsorb)

lemma takeTurn_ok:
  assumes "bs \<noteq> []" "length bs \<le> 65536"
  shows "\<exists>i s. i = unat (findSmallestBox bs) \<and> i < length bs \<and>
           calcScore (boxAbsorb (bs ! i) w) = Inr s \<and> dnonneg s \<and>
           takeTurn w p bs = Inr (p\<lparr>m_score := dadd (m_score p) s\<rparr>, bs[i := boxAbsorb (bs ! i) w])"
proof -
  let ?i = "unat (findSmallestBox bs)"
  have i: "?i < length bs" by (rule findSmallestBox_bound [OF assms])
  obtain s where s: "calcScore (boxAbsorb (bs ! ?i) w) = Inr s" "dnonneg s"
    using calcScore_boxAbsorb [of "bs ! ?i" w] by blast
  have "takeTurn w p bs = Inr (p\<lparr>m_score := dadd (m_score p) s\<rparr>, bs[?i := boxAbsorb (bs ! ?i) w])"
    using i s(1) by (simp add: takeTurn_def Let_def)
  with i s show ?thesis by blast
qed

lemma dnonneg_dle_refl: "dnonneg a \<Longrightarrow> dle a a"
  by (cases a) simp_all

lemma play_turn_ok:
  assumes "game_ok g"
  shows "\<exists>g' s. play_turn g w = Inr g' \<and> game_ok g' \<and> dnonneg s \<and>
           count g' = next_count (count g) \<and>
           (if A_to_move g
            then m_score (player_A g') = dadd (m_score (player_A g)) s \<and> player_B g' = player_B g
            else m_score (player_B g') = dadd (m_score (player_B g)) s \<and> player_A g' = player_A g)"
proof -
  have bs: "boxes g \<noteq> []" "length (boxes g) \<le> 65536"
    using assms by (auto simp: game_ok_def)
  show ?thesis
  proof (cases "A_to_move g")
    case True
    from takeTurn_ok [OF bs, of w "player_A g"] obtain i s where
      "dnonneg s" "takeTurn w (player_A g) (boxes g) =
         Inr ((player_A g)\<lparr>m_score := dadd (m_score (player_A g)) s\<rparr>, (boxes g)[i := boxAbsorb (boxes g ! i) w])"
      by blast
    then show ?thesis
      using True assms by (auto simp: play_turn_def game_ok_def dadd_nonneg)
  next
    case False
    from takeTurn_ok [OF bs, of w "player_B g"] obtain i s where
      "dnonneg s" "takeTurn w (player_B g) (boxes g) =
         Inr ((player_B g)\<lparr>m_score := dadd (m_score (player_B g)) s\<rparr>, (boxes g)[i := boxAbsorb (boxes g ! i) w])"
      by blast
    then show ?thesis
      using False assms by (auto simp: play_turn_def game_ok_def dadd_nonneg)
  qed
qed

lemma play_loop_append:
  "play_loop g (ws @ vs) = (case play_loop g ws of Inl e \<Rightarrow> Inl e | Inr g' \<Rightarrow> play_loop g' vs)"
  by (induction ws arbitrary: g) (simp_all split: sum.splits)

lemma unat_next_count: "unat (next_count c) = min (unat c + 1) 65535"
proof (cases "unat c < 65535")
  case True
  then have "unat c + unat (1 :: u16) < 2 ^ LENGTH(16)" by simp
  then have "unat (c + 1) = unat c + unat (1 :: u16)" by (simp only: unat_add_lem)
  then show ?thesis using True by (simp add: next_count_def)
next
  case False
  have "unat c < 2 ^ LENGTH(16)" by (rule unsigned_less)
  then have "unat c = 65535" using False by simp
  then show ?thesis by (simp add: next_count_def)
qed

lemma play_loop_ok:
  "game_ok g \<Longrightarrow>
   \<exists>g'. play_loop g ws = Inr g' \<and> game_ok g' \<and>
        unat (count g') = min (unat (count g) + length ws) 65535"
proof (induction ws arbitrary: g)
  case Nil
  have "unat (count g) < 2 ^ LENGTH(16)" by (rule unsigned_less)
  then show ?case using Nil by simp
next
  case (Cons w ws)
  from play_turn_ok [OF Cons.prems, of w] obtain g1 where
    g1: "play_turn g w = Inr g1" "game_ok g1" "count g1 = next_count (count g)" by blast
  from Cons.IH [OF g1(2)] obtain g' where
    g': "play_loop g1 ws = Inr g'" "game_ok g'"
        "unat (count g') = min (unat (count g1) + length ws) 65535" by blast
  have "unat (count g') = min (unat (count g) + length (w # ws)) 65535"
    using g'(3) by (simp add: g1(3) unat_next_count)
  with g1 g' show ?case by simp
qed

lemma game_ok_new: "game_ok new_game"
  by (simp add: game_ok_def new_game_def new_player_def dnonneg_def)

section \<open>Evaluating roundings of numerals\<close>

lemma round_even_near:
  assumes "r - 1 / 2 < of_int k" "of_int k < r + 1 / 2"
  shows "round_even r = k"
proof -
  let ?f = "\<lfloor>r\<rfloor>"
  have f: "of_int ?f \<le> r" "r < of_int ?f + 1" by linarith+
  have "of_int ?f - 1 < (of_int k :: rat)" using assms(1) f(1) by linarith
  then have "of_int (?f - 1) < (of_int k :: rat)" by simp
  then have 1: "?f - 1 < k" by (simp only: of_int_less_iff)
  have "(of_int k :: rat) < of_int ?f + 2" using assms(2) f(2) by linarith
  then have "(of_int k :: rat) < of_int (?f + 2)" by simp
  then have 2: "k < ?f + 2" by (simp only: of_int_less_iff)
  from 1 2 consider "k = ?f" | "k = ?f + 1" by linarith
  then show ?thesis
  proof cases
    case 1
    then have "r - of_int ?f < 1 / 2" using assms(1) by simp
    then show ?thesis using 1 by (simp add: round_even_def Let_def)
  next
    case 2
    then have "1 / 2 < r - of_int ?f" using assms(2) by simp
    then show ?thesis using 2 by (simp add: round_even_def Let_def)
  qed
qed

lemma round_even_tie:
  assumes "r = of_int f + 1 / 2"
  shows "round_even r = (if even f then f else f + 1)"
proof -
  have "\<lfloor>r\<rfloor> = f" unfolding assms by (rule floor_unique) simp_all
  then show ?thesis by (simp add: round_even_def Let_def assms)
qed

text \<open>
  Evaluating a rounding: with the exponent \<open>e\<close> and the integer significand \<open>k\<close>
  given, the premises are comparisons of numerals.
\<close>

lemma round_rat_significand:
  assumes "2 powi e \<le> x" "x < 2 powi (e + 1)" "- 1022 \<le> e" "e < 1023"
    and "round_even (x * 2 powi (52 - e)) = k"
    and "r = of_int k * 2 powi (e - 52)"
  shows "round_rat x = Finite r"
proof -
  have x: "0 < x" by (rule less_le_trans [OF pow2_pos assms(1)])
  have e: "flog2 x = e" by (rule flog2_unique [OF assms(1,2)])
  then have m: "max (flog2 x) (- 1022) = e" using assms(3) by simp
  have fl: "fl x = r" using x by (simp add: fl_def fl_pos_def Let_def m assms(5,6))
  have "fl_pos x \<le> 2 powi (max (flog2 x) (- 1022) + 1)" by (rule fl_pos_upper [OF x])
  also have "\<dots> = 2 powi (e + 1)" by (simp only: m)
  also have "\<dots> \<le> 2 powi 1023" using assms(4) by (simp only: pow2_le_iff)
  also have "\<dots> < 2 powi 1024" by (simp only: pow2_less_iff)
  also have "\<dots> = 2 ^ 1024" by simp
  finally have up: "fl x < 2 ^ 1024" using x by (simp add: fl_def)
  have "0 \<le> fl x" using x by (intro fl_nonneg) simp
  then have "\<not> fl x \<le> - (2 ^ 1024)" by (rule not_le_neg_big)
  then show ?thesis using up by (simp add: round_rat_def Let_def fl not_le [symmetric])
qed

lemma round_rat_eval:
  assumes "2 powi e \<le> x" "x < 2 powi (e + 1)" "- 1022 \<le> e" "e < 1023"
    and "x * 2 powi (52 - e) - 1 / 2 < of_int k" "of_int k < x * 2 powi (52 - e) + 1 / 2"
    and "r = of_int k * 2 powi (e - 52)"
  shows "round_rat x = Finite r"
  by (rule round_rat_significand [OF assms(1-4) round_even_near [OF assms(5,6)] assms(7)])

lemma round_rat_tie:
  assumes "2 powi e \<le> x" "x < 2 powi (e + 1)" "- 1022 \<le> e" "e < 1023"
    and "x * 2 powi (52 - e) = of_int f + 1 / 2"
    and "r = of_int (if even f then f else f + 1) * 2 powi (e - 52)"
  shows "round_rat x = Finite r"
  by (rule round_rat_significand [OF assms(1-4) round_even_tie [OF assms(5)] assms(6)])

text \<open>A non-negative value with at most 53 significant bits is returned unchanged.\<close>

lemma round_rat_grid:
  assumes "x = of_int m * 2 powi g" "0 \<le> x" "x < 2 powi (g + 53)" "- 1074 \<le> g" "g \<le> 970"
  shows "round_rat x = Finite x"
proof (cases "x = 0")
  case True
  then show ?thesis by (simp add: round_rat_def Let_def)
next
  case False
  with assms(2) have x: "0 < x" by simp
  have "flog2 x < g + 53" by (rule flog2_less [OF x assms(3)])
  then have "flog2 x - 52 \<le> g" by simp
  from fl_pos_grid [OF assms(1) this assms(4)] have fl: "fl x = x" using x by (simp add: fl_def)
  have "x < 2 powi (g + 53)" by (rule assms(3))
  also have "\<dots> \<le> 2 powi 1023" using assms(5) by (simp only: pow2_le_iff)
  also have "\<dots> < 2 powi 1024" by (simp only: pow2_less_iff)
  also have "\<dots> = 2 ^ 1024" by simp
  finally have up: "x < 2 ^ 1024" .
  have "\<not> x \<le> - (2 ^ 1024)" using assms(2) by (rule not_le_neg_big)
  then show ?thesis using up by (simp add: round_rat_def Let_def fl not_le [symmetric])
qed

lemma round_rat_numeral:
  "(numeral k :: nat) < 2 ^ 53 \<Longrightarrow> round_rat (numeral k) = Finite (numeral k)"
  using round_rat_of_nat [of "numeral k"] by simp

lemma round_rat_0 [simp]: "round_rat 0 = Finite 0"
  by (simp add: round_rat_def Let_def)

lemma round_rat_1 [simp]: "round_rat 1 = Finite 1"
  using round_rat_of_nat [of 1] by simp

lemmas game_eval =
  play_def getScore_def play_loop.simps play_turn_def A_to_move_def next_count_def
  takeTurn_def findSmallestBox_def findSmallestBox_loop.simps box_less_def boxAbsorb_def
  calcScore_def green_calcScore_eq windowed_mean_square_def blue_calcScore_def pairing_def
  of_u32_def dmul_def ddiv_def d_lit_def Let_def new_game_def makeGreenBox_def makeBlueBox_def
  Box_def new_player_def round_rat_numeral

section \<open>The roundings of the example games\<close>

lemma play_round_1: "round_rat (1 / 10) = Finite (3602879701896397 / 36028797018963968)"
  by (rule round_rat_eval [where e = "-4" and k = 7205759403792794]) simp_all

lemma play_round_2: "round_rat (1 / 5) = Finite (3602879701896397 / 18014398509481984)"
  by (rule round_rat_eval [where e = "-3" and k = 7205759403792794]) simp_all

lemma play_round_3: "round_rat (3 / 10) = Finite (5404319552844595 / 18014398509481984)"
  by (rule round_rat_eval [where e = "-2" and k = 5404319552844595]) simp_all

lemma play_round_4: "round_rat (39631676720860365 / 36028797018963968) = Finite (2476979795053773 / 2251799813685248)"
  by (rule round_rat_eval [where e = "0" and k = 4953959590107546]) simp_all

lemma play_round_5: "round_rat (39631676720860365 / 18014398509481984) = Finite (2476979795053773 / 1125899906842624)"
  by (rule round_rat_eval [where e = "1" and k = 4953959590107546]) simp_all

lemma play_round_6: "round_rat (59447515081290547 / 18014398509481984) = Finite (3715469692580659 / 1125899906842624)"
  by (rule round_rat_eval [where e = "1" and k = 7430939385161318]) simp_all

lemma play_round_7: "round_rat (20491378304535757 / 2251799813685248) = Finite (5122844576133939 / 562949953421312)"
  by (rule round_rat_eval [where e = "3" and k = 5122844576133939]) simp_all

lemma play_round_8: "round_rat (9 / 2) = Finite (9 / 2)"
  by (rule round_rat_grid [where m = 9 and g = "-1"]) simp_all

lemma play_round_9: "round_rat (81 / 4) = Finite (81 / 4)"
  by (rule round_rat_grid [where m = 81 and g = "-2"]) simp_all

lemma play_round_10: "round_rat (181 / 4) = Finite (181 / 4)"
  by (rule round_rat_grid [where m = 181 and g = "-2"]) simp_all

lemma play_round_11: "round_rat (17113678584007885 / 1125899906842624) = Finite (4278419646001971 / 281474976710656)"
  by (rule round_rat_tie [where e = "3" and f = 8556839292003942]) simp_all

lemma play_round_12: "round_rat (27359367736275763 / 1125899906842624) = Finite (6839841934068941 / 281474976710656)"
  by (rule round_rat_eval [where e = "4" and k = 6839841934068941]) simp_all

lemma play_round_13: "round_rat (1465 / 4) = Finite (1465 / 4)"
  by (rule round_rat_grid [where m = 1465 and g = "-2"]) simp_all

lemma play_round_14: "round_rat (38685626231271013292494029 / 18014398509481984) = Finite (2251799813894963 / 1048576)"
  by (rule round_rat_eval [where e = "31" and k = 4503599627789926]) simp_all

lemma play_wrap: "play [1, 1, 2147483648] = Inr (Finite 2147483649, Finite 1)"
  by (simp add: game_eval play_round_1 play_round_2 play_round_3 play_round_4 play_round_5 play_round_6 play_round_7 play_round_8 play_round_9 play_round_10 play_round_11 play_round_12 play_round_13 play_round_14)

lemma play_scenario_1: "play [1, 1, 2, 3] = Inr (Finite 13, Finite 25)"
  by (simp add: game_eval play_round_1 play_round_2 play_round_3 play_round_4 play_round_5
      play_round_6)

section \<open>The end-to-end scenarios\<close>

text \<open>
  Claim C5. On the inputs of the spec's end-to-end scenarios \<open>play\<close> returns the
  stated pairs of scores: \<open>(13, 25)\<close> for \<open>[1, 1, 2, 3]\<close>, \<open>(155, 366.25)\<close> for the
  first eight Fibonacci numbers, and \<open>(0, 0)\<close> for the empty input. No call ends in
  a fault.
\<close>

theorem play_scenarios:
  "play [1, 1, 2, 3] = Inr (Finite 13, Finite 25) \<and>
   play [1, 1, 2, 3, 5, 8, 13, 21] = Inr (Finite 155, Finite (36625 / 100)) \<and>
   play [] = Inr (Finite 0, Finite 0)"
  by (simp add: game_eval play_round_1 play_round_2 play_round_3 play_round_4 play_round_5 play_round_6 play_round_7 play_round_8 play_round_9 play_round_10 play_round_11 play_round_12 play_round_13)

section \<open>The selector\<close>

text \<open>
  Claim C10. \<open>findSmallestBox\<close> returns index 0 on an empty collection instead of
  failing, and on a non-empty collection of at most 65536 boxes its result is smaller
  than the size of the collection.
\<close>

theorem findSmallestBox_total:
  "findSmallestBox [] = 0 \<and>
   (bs \<noteq> [] \<and> length bs \<le> 65536 \<longrightarrow> unat (findSmallestBox bs) < length bs)"
  using findSmallestBox_Nil findSmallestBox_bound [of bs] by blast

theorem findSmallestBox_total_witness:
  "findSmallestBox [] = 0 \<and>
   boxes new_game \<noteq> [] \<and> length (boxes new_game) \<le> 65536 \<and>
   unat (findSmallestBox (boxes new_game)) < length (boxes new_game)"
  using findSmallestBox_total [of "boxes new_game"] by (simp add: new_game_def)

lemma findSmallestBox_loop_skip:
  "idx \<le> n \<Longrightarrow> n \<le> length bs \<Longrightarrow>
   (\<forall>j. idx \<le> j \<and> j < n \<longrightarrow> \<not> box_less (bs ! j) (bs ! unat s)) \<Longrightarrow>
   findSmallestBox_loop bs idx s = findSmallestBox_loop bs n s"
proof (induction bs idx s rule: findSmallestBox_loop.induct)
  case (1 boxes idx small_idx)
  show ?case
  proof (cases "idx = n")
    case True
    then show ?thesis by simp
  next
    case False
    with "1.prems" have lt: "idx < n" "idx < length boxes" by simp_all
    have nb: "\<not> box_less (boxes ! idx) (boxes ! unat small_idx)"
      using "1.prems"(3) lt(1) by simp
    have "findSmallestBox_loop boxes idx small_idx = findSmallestBox_loop boxes (idx + 1) small_idx"
      using lt(2) nb by (subst findSmallestBox_loop.simps) simp
    also have "\<dots> = findSmallestBox_loop boxes n small_idx"
      using "1.IH" [OF lt(2)] nb lt(1) "1.prems"(2,3) by simp
    finally show ?thesis .
  qed
qed

lemma findSmallestBox_many:
  "findSmallestBox (replicate 65536 (Box GreenBox (Finite 1)) @ [Box GreenBox (Finite 0)]) = 0"
proof -
  let ?bs = "replicate 65536 (Box GreenBox (Finite 1)) @ [Box GreenBox (Finite 0)]"
  have "findSmallestBox_loop ?bs 1 0 = findSmallestBox_loop ?bs 65536 0"
    by (rule findSmallestBox_loop_skip) (auto simp: nth_append box_less_def Box_def)
  also have "\<dots> = findSmallestBox_loop ?bs 65537 0"
  proof -
    have wrap: "(65536 :: u16) = 0" by simp
    show ?thesis
      by (subst findSmallestBox_loop.simps) (simp add: nth_append box_less_def Box_def wrap)
  qed
  also have "\<dots> = 0"
    by (subst findSmallestBox_loop.simps) simp
  finally show ?thesis by (simp only: findSmallestBox_def)
qed

text \<open>
  Claim C4, as amended. For every non-empty collection of at most 65536 boxes none of
  whose weights is NaN, \<open>findSmallestBox\<close> returns the smallest index that holds the
  minimum current weight: the box there is no heavier than any box, and every box before
  it is strictly heavier, so among boxes that share the minimum the first one wins.
\<close>

theorem findSmallestBox_first_minimum:
  "bs \<noteq> [] \<Longrightarrow> length bs \<le> 65536 \<Longrightarrow> NaN \<notin> set (map m_weight bs) \<Longrightarrow>
   first_min (map m_weight bs) (unat (findSmallestBox bs))"
  by (rule findSmallestBox_first_min)

theorem findSmallestBox_first_minimum_witness:
  "[Box GreenBox (Finite 1), Box BlueBox (Finite 0), Box GreenBox (Finite 0)] \<noteq> [] \<and>
   first_min (map m_weight [Box GreenBox (Finite 1), Box BlueBox (Finite 0), Box GreenBox (Finite 0)])
     (unat (findSmallestBox [Box GreenBox (Finite 1), Box BlueBox (Finite 0), Box GreenBox (Finite 0)])) \<and>
   findSmallestBox [Box GreenBox (Finite 1), Box BlueBox (Finite 0), Box GreenBox (Finite 0)] = 1"
  using findSmallestBox_first_minimum
    [of "[Box GreenBox (Finite 1), Box BlueBox (Finite 0), Box GreenBox (Finite 0)]"]
  by (simp add: Box_def findSmallestBox_def findSmallestBox_loop.simps box_less_def)

text \<open>
  The claim as stated, for every non-empty collection, fails twice. With 65537 boxes of
  which only the last is lightest, the index 65536 is truncated to 16 bits and the
  selector returns 0, a box that does not hold the minimum. With a NaN weight in front,
  no comparison succeeds and the selector stays at the NaN box.
\<close>

theorem findSmallestBox_counterexample:
  "\<not> first_min
       (map m_weight (replicate 65536 (Box GreenBox (Finite 1)) @ [Box GreenBox (Finite 0)]))
       (unat (findSmallestBox (replicate 65536 (Box GreenBox (Finite 1)) @ [Box GreenBox (Finite 0)]))) \<and>
   \<not> first_min (map m_weight [Box GreenBox NaN, Box GreenBox (Finite 1)])
       (unat (findSmallestBox [Box GreenBox NaN, Box GreenBox (Finite 1)]))"
proof
  show "\<not> first_min
       (map m_weight (replicate 65536 (Box GreenBox (Finite 1)) @ [Box GreenBox (Finite 0)]))
       (unat (findSmallestBox (replicate 65536 (Box GreenBox (Finite 1)) @ [Box GreenBox (Finite 0)])))"
    by (simp only: findSmallestBox_many) (simp add: first_min_def Box_def nth_append)
  show "\<not> first_min (map m_weight [Box GreenBox NaN, Box GreenBox (Finite 1)])
       (unat (findSmallestBox [Box GreenBox NaN, Box GreenBox (Finite 1)]))"
    by (simp add: first_min_def Box_def findSmallestBox_def findSmallestBox_loop.simps box_less_def)
qed

section \<open>The windowed-mean box\<close>

lemma round_rat_unat: "round_rat (of_nat (unat (w :: u32))) = Finite (of_nat (unat w))"
proof -
  have "unat w < 4294967296" by (rule unat_u32_less)
  then have "unat w < 2 ^ 53" by simp
  then show ?thesis by (rule round_rat_of_nat)
qed

lemma round_rat_half_nat:
  assumes "n < 2 ^ 53"
  shows "round_rat (of_nat n / 2) = Finite (of_nat n / 2)"
proof -
  have 1: "of_nat n / 2 = rat_of_int (int n) * 2 powi (- 1)" by simp
  have "(of_nat n :: rat) < of_nat (2 ^ 53)" using assms by (simp only: of_nat_less_iff)
  then have 2: "of_nat n / 2 < (2::rat) powi (- 1 + 53)" by simp
  show ?thesis by (rule round_rat_grid [OF 1 _ 2]) simp_all
qed

lemma calcScore_green_after:
  "calcScore (foldl boxAbsorb (makeGreenBox x) ws) = Inr (windowed_mean_square ws)"
  using foldl_boxAbsorb [of "makeGreenBox x" ws]
  by (simp add: calcScore_def green_calcScore_eq makeGreenBox_def Box_def)

lemma windowed_mean_square_1:
  "windowed_mean_square [w1] = round_rat ((of_nat (unat w1)) ^ 2)"
  using round_rat_unat [of w1]
  by (simp add: windowed_mean_square_def ddiv_def dmul_def power2_eq_square del: of_nat_unat)

lemma windowed_mean_square_2:
  "windowed_mean_square [w1, w2] = round_rat (((of_nat (unat w1) + of_nat (unat w2)) / 2) ^ 2)"
proof -
  have "unat w1 < 4294967296" "unat w2 < 4294967296" by (rule unat_u32_less)+
  then have "unat w1 + unat w2 < 2 ^ 53" by simp
  from round_rat_half_nat [OF this] show ?thesis
    by (simp add: windowed_mean_square_def ddiv_def dmul_def power2_eq_square del: of_nat_unat)
qed

lemma windowed_mean_square_4:
  "windowed_mean_square [w1, w2, w3, w4] = windowed_mean_square [w2, w3, w4]"
  by (simp add: windowed_mean_square_def)

lemma windowed_mean_square_1_exact:
  assumes "unat w1 * unat w1 < 2 ^ 53"
  shows "windowed_mean_square [w1] = Finite ((of_nat (unat w1)) ^ 2)"
proof -
  have "round_rat (of_nat (unat w1 * unat w1)) = Finite (of_nat (unat w1 * unat w1))"
    by (rule round_rat_of_nat [OF assms])
  then show ?thesis
    by (simp add: windowed_mean_square_1 power2_eq_square del: of_nat_unat)
qed

text \<open>
  Claim C3. After a green box has absorbed a non-empty sequence of weights, its score is
  the square of the mean of the last \<open>min 3 (length ws)\<close> of them
  (\<open>windowed_mean_square\<close>; the sum is exact, the quotient and the square are rounded to
  double). After \<open>[w1]\<close> alone the score is the double nearest to \<open>w1\<^sup>2\<close>, which is
  \<open>w1\<^sup>2\<close> itself when \<open>w1\<^sup>2 < 2\<^sup>5\<^sup>3\<close>; after \<open>[w1, w2]\<close> it is the double nearest to
  \<open>((w1 + w2) / 2)\<^sup>2\<close>, and after four absorptions it is the score of \<open>[w2, w3, w4]\<close>,
  whatever \<open>w1\<close> and the initial weights are.
\<close>

theorem green_calcScore_window:
  "(ws \<noteq> [] \<longrightarrow>
      calcScore (foldl boxAbsorb (makeGreenBox x) ws) = Inr (windowed_mean_square ws)) \<and>
   calcScore (foldl boxAbsorb (makeGreenBox x) [w1]) = Inr (round_rat ((of_nat (unat w1)) ^ 2)) \<and>
   (unat w1 * unat w1 < 2 ^ 53 \<longrightarrow>
      calcScore (foldl boxAbsorb (makeGreenBox x) [w1]) = Inr (Finite ((of_nat (unat w1)) ^ 2))) \<and>
   calcScore (foldl boxAbsorb (makeGreenBox x) [w1, w2])
     = Inr (round_rat (((of_nat (unat w1) + of_nat (unat w2)) / 2) ^ 2)) \<and>
   calcScore (foldl boxAbsorb (makeGreenBox x) [w1, w2, w3, w4])
     = calcScore (foldl boxAbsorb (makeGreenBox y) [w2, w3, w4])"
  using windowed_mean_square_1_exact [of w1]
  by (simp only: calcScore_green_after windowed_mean_square_1 windowed_mean_square_2
      windowed_mean_square_4) simp

theorem green_calcScore_window_witness:
  "[1, 5] \<noteq> ([] :: u32 list) \<and> unat (5 :: u32) * unat (5 :: u32) < 2 ^ 53 \<and>
   calcScore (foldl boxAbsorb (makeGreenBox (Finite 0)) [1, 5]) = Inr (windowed_mean_square [1, 5]) \<and>
   windowed_mean_square [1, 5] = Finite 9 \<and>
   calcScore (foldl boxAbsorb (makeGreenBox (Finite 0)) [5]) = Inr (Finite 25)"
  using green_calcScore_window [of "[1, 5]" "Finite 0" 5]
  by (simp add: windowed_mean_square_def ddiv_def dmul_def round_rat_numeral)

section \<open>The min/max pairing box\<close>

lemma wrap_round_101: "round_rat (18446744078004518912) = Finite (18446744078004518912)"
  by (rule round_rat_grid [where m = 4294967297 and g = "32"]) simp_all

lemma wrap_round_102: "round_rat (9223372039002259456) = Finite (9223372039002259456)"
  by (rule round_rat_grid [where m = 4294967297 and g = "31"]) simp_all

lemma wrap_round_103: "round_rat (9223372041149743104) = Finite (9223372041149743104)"
  by (rule round_rat_grid [where m = 2147483649 and g = "32"]) simp_all

lemma calcScore_blue_after:
  "ws \<noteq> [] \<Longrightarrow>
   calcScore (foldl boxAbsorb (makeBlueBox x) ws) = Inr (pairing (Min (set ws)) (Max (set ws)))"
  using foldl_boxAbsorb [of "makeBlueBox x" ws]
  by (simp add: calcScore_def blue_calcScore_eq makeBlueBox_def Box_def)

text \<open>
  The score of a blue box depends on its history through the minimum and the maximum
  alone, so neither the order of absorption nor the weights in between matter; and it is
  the spec's pairing of the converted operands as long as their sum fits 32 bits.
\<close>

lemma calcScore_blue_set:
  "ws \<noteq> [] \<Longrightarrow> set ws = set vs \<Longrightarrow>
   calcScore (foldl boxAbsorb (makeBlueBox x) ws) = calcScore (foldl boxAbsorb (makeBlueBox y) vs)"
proof -
  assume ws: "ws \<noteq> []" and eq: "set ws = set vs"
  from ws eq have vs: "vs \<noteq> []" by auto
  show ?thesis
    by (simp only: calcScore_blue_after [OF ws] calcScore_blue_after [OF vs] eq)
qed

lemma calcScore_blue_no_wrap:
  "ws \<noteq> [] \<Longrightarrow> unat (Min (set ws)) + unat (Max (set ws)) < 2 ^ 32 \<Longrightarrow>
   calcScore (foldl boxAbsorb (makeBlueBox x) ws)
     = Inr (cantor_pairing (of_u32 (Min (set ws))) (of_u32 (Max (set ws))))"
  by (simp add: calcScore_blue_after pairing_no_wrap)

text \<open>
  Claim C2 says that the minimum \<open>m\<close> and the maximum \<open>M\<close> are converted to double
  before \<open>m + M\<close> is formed. The code adds them as \<^verbatim>\<open>uint32_t\<close> and converts the sum, so
  the sum wraps: a blue box that has absorbed the single weight \<open>2\<^sup>3\<^sup>1\<close> scores
  \<open>2\<^sup>3\<^sup>1\<close>, where the pairing of the claim is \<open>2\<^sup>6\<^sup>3 + 2\<^sup>3\<^sup>2\<close>; \<open>play\<close> reaches it
  on the input \<open>[1, 1, 2147483648]\<close>.
\<close>

theorem blue_pairing_wraps:
  "calcScore (foldl boxAbsorb (makeBlueBox x) [2147483648]) = Inr (Finite 2147483648) \<and>
   cantor_pairing (of_u32 2147483648) (of_u32 2147483648) = Finite 9223372041149743104 \<and>
   play [1, 1, 2147483648] = Inr (Finite 2147483649, Finite 1)"
proof -
  have "calcScore (foldl boxAbsorb (makeBlueBox x) [2147483648]) = Inr (Finite 2147483648)"
    using calcScore_blue_after [of "[2147483648]" x]
    by (simp add: pairing_def of_u32_def dmul_def ddiv_def round_rat_numeral)
  moreover have "cantor_pairing (of_u32 2147483648) (of_u32 2147483648) = Finite 9223372041149743104"
    by (simp add: cantor_pairing_def of_u32_def dmul_def ddiv_def round_rat_numeral wrap_round_101 wrap_round_102 wrap_round_103)
  ultimately show ?thesis by (simp only: play_wrap)
qed

section \<open>The weight of a box\<close>

lemma running_weight_snoc:
  "running_weight init (ws @ [w]) = dadd (running_weight init ws) (of_u32 w)"
  by (simp add: running_weight_def)

lemma running_weight_exact:
  "n + sum_list (map unat ws) < 2 ^ 53 \<Longrightarrow>
   running_weight (Finite (of_nat n)) ws = Finite (of_nat n + of_nat (sum_list (map unat ws)))"
  using fold_dadd_exact [of n ws]
  by (simp add: running_weight_def foldl_conv_fold del: of_nat_unat)

lemma weights_ok_new: "weights_ok (boxes new_game)"
  by (simp add: weights_ok_def running_weight_def new_game_def makeGreenBox_def makeBlueBox_def
      Box_def list_all2_same)

lemma weights_ok_length: "weights_ok bs \<Longrightarrow> length bs = 4"
  by (auto simp: weights_ok_def new_game_def dest: list_all2_lengthD)

lemma weights_ok_absorb:
  assumes "weights_ok bs" "i < length bs"
  shows "weights_ok (bs[i := boxAbsorb (bs ! i) w])"
proof -
  let ?P = "\<lambda>b b0. kind b = kind b0 \<and>
      m_weight b = running_weight (m_weight b0) (absorbed_weights b)"
  have all: "list_all2 ?P bs (boxes new_game)" using assms(1) by (simp only: weights_ok_def)
  then have "?P (bs ! i) (boxes new_game ! i)" using assms(2) by (rule list_all2_nthD)
  then have "?P (boxAbsorb (bs ! i) w) (boxes new_game ! i)"
    by (simp add: kind_boxAbsorb weight_boxAbsorb absorbed_boxAbsorb running_weight_snoc)
  with all have "list_all2 ?P (bs[i := boxAbsorb (bs ! i) w])
      ((boxes new_game)[i := boxes new_game ! i])"
    by (rule list_all2_update_cong)
  then show ?thesis by (simp add: weights_ok_def)
qed

lemma play_turn_weights_ok:
  assumes "weights_ok (boxes g)" "play_turn g w = Inr g'"
  shows "weights_ok (boxes g')"
proof -
  have bs: "boxes g \<noteq> []" "length (boxes g) \<le> 65536"
    using weights_ok_length [OF assms(1)] by auto
  have "\<exists>i p. i < length (boxes g) \<and> g' = g\<lparr>boxes := (boxes g)[i := boxAbsorb (boxes g ! i) w],
      player_A := (if A_to_move g then p else player_A g),
      player_B := (if A_to_move g then player_B g else p),
      count := next_count (count g)\<rparr>"
  proof (cases "A_to_move g")
    case True
    from takeTurn_ok [OF bs, of w "player_A g"] obtain i s where
      "i < length (boxes g)" "takeTurn w (player_A g) (boxes g) =
         Inr ((player_A g)\<lparr>m_score := dadd (m_score (player_A g)) s\<rparr>, (boxes g)[i := boxAbsorb (boxes g ! i) w])"
      by blast
    then show ?thesis using True assms(2) by (auto simp: play_turn_def)
  next
    case False
    from takeTurn_ok [OF bs, of w "player_B g"] obtain i s where
      "i < length (boxes g)" "takeTurn w (player_B g) (boxes g) =
         Inr ((player_B g)\<lparr>m_score := dadd (m_score (player_B g)) s\<rparr>, (boxes g)[i := boxAbsorb (boxes g ! i) w])"
      by blast
    then show ?thesis using False assms(2) by (auto simp: play_turn_def)
  qed
  then obtain i p where "i < length (boxes g)"
    "boxes g' = (boxes g)[i := boxAbsorb (boxes g ! i) w]" by auto
  then show ?thesis using weights_ok_absorb [OF assms(1)] by simp
qed

lemma play_loop_weights_ok:
  "weights_ok (boxes g) \<Longrightarrow> play_loop g ws = Inr g' \<Longrightarrow> weights_ok (boxes g')"
proof (induction ws arbitrary: g)
  case Nil
  then show ?case by simp
next
  case (Cons w ws)
  from Cons.prems(2) obtain g1 where g1: "play_turn g w = Inr g1" "play_loop g1 ws = Inr g'"
    by (auto split: sum.splits)
  from play_turn_weights_ok [OF Cons.prems(1) g1(1)] have "weights_ok (boxes g1)" .
  from Cons.IH [OF this g1(2)] show ?case .
qed

text \<open>
  Claim C6, as amended. \<open>boxAbsorb\<close> is the only operation that changes a box: it
  appends the token to the history and adds the converted token to the weight in double
  arithmetic. So after any sequence of absorptions the history is the old history followed
  by the tokens, and the weight is the running sum of the old weight and the tokens, each
  partial sum rounded to double (\<open>running_weight\<close>). The weight is the initial weight plus
  the exact sum of the tokens when the initial weight is a natural number and the total
  stays below \<open>2\<^sup>5\<^sup>3\<close>. In every state that \<open>play\<close> reaches, each of the four boxes has
  the kind it started with and the running sum of its initial weight and its own history
  as weight.
\<close>

theorem boxAbsorb_running_weight:
  "absorbed_weights (foldl boxAbsorb b ws) = absorbed_weights b @ ws \<and>
   m_weight (foldl boxAbsorb b ws) = running_weight (m_weight b) ws \<and>
   (m_weight b = Finite (of_nat n) \<and> n + sum_list (map unat ws) < 2 ^ 53 \<longrightarrow>
      m_weight (foldl boxAbsorb b ws) = Finite (of_nat n + of_nat (sum_list (map unat ws)))) \<and>
   (play_loop new_game input_weights = Inr g \<longrightarrow> weights_ok (boxes g))"
  using foldl_boxAbsorb [of b ws] running_weight_exact [of n ws]
    play_loop_weights_ok [OF weights_ok_new, of input_weights g]
  by auto

theorem boxAbsorb_running_weight_witness:
  "m_weight (makeGreenBox (Finite 0)) = Finite (of_nat 0) \<and>
   0 + sum_list (map unat [1, 5 :: u32]) < (2::nat) ^ 53 \<and>
   m_weight (foldl boxAbsorb (makeGreenBox (Finite 0)) [1, 5]) = Finite 6 \<and>
   absorbed_weights (foldl boxAbsorb (makeGreenBox (Finite 0)) [1, 5]) = [1, 5] \<and>
   play_loop new_game [] = Inr new_game \<and> weights_ok (boxes new_game)"
  using boxAbsorb_running_weight [of "makeGreenBox (Finite 0)" "[1, 5]" 0 "[]" new_game]
  by (simp add: makeGreenBox_def Box_def running_weight_def of_u32_def round_rat_numeral)

text \<open>
  The claim as stated, weight = initial weight + sum of the absorbed weights, fails for a
  green box created with weight \<open>2\<^sup>5\<^sup>3\<close> that absorbs 1 twice: each sum \<open>2\<^sup>5\<^sup>3 + 1\<close> lies
  halfway between two doubles and is rounded back to \<open>2\<^sup>5\<^sup>3\<close>, so the weight stays
  \<open>2\<^sup>5\<^sup>3\<close>, whereas initial weight plus sum is the double \<open>2\<^sup>5\<^sup>3 + 2\<close>, whether the sum
  is taken exactly or in double arithmetic. Read with exact sums, the equation fails in
  the game itself: the box that starts at the double nearest to 0.1 and absorbs 1 weighs
  the double nearest to their sum, not the sum.
\<close>

theorem boxAbsorb_weight_counterexample:
  "m_weight (foldl boxAbsorb (makeGreenBox (Finite 9007199254740992)) [1, 1])
     = Finite 9007199254740992 \<and>
   m_weight (foldl boxAbsorb (makeGreenBox (Finite 9007199254740992)) [1, 1])
     \<noteq> Finite (9007199254740992 + (1 + 1)) \<and>
   m_weight (foldl boxAbsorb (makeGreenBox (Finite 9007199254740992)) [1, 1])
     \<noteq> dadd (Finite 9007199254740992) (dadd (of_u32 1) (of_u32 1)) \<and>
   d_lit (1 / 10) = Finite (3602879701896397 / 36028797018963968) \<and>
   m_weight (foldl boxAbsorb (makeGreenBox (d_lit (1 / 10))) [1])
     \<noteq> Finite (3602879701896397 / 36028797018963968 + 1)"
proof -
  have tie: "round_rat 9007199254740993 = Finite 9007199254740992"
    by (rule round_rat_tie [where e = 53 and f = 4503599627370496]) simp_all
  have ex: "round_rat 9007199254740994 = Finite 9007199254740994"
    by (rule round_rat_grid [where m = 4503599627370497 and g = 1]) simp_all
  show ?thesis
    by (simp add: makeGreenBox_def Box_def boxAbsorb_def of_u32_def tie ex round_rat_numeral
        d_lit_def play_round_1 play_round_4)
qed

section \<open>Scores are read after an absorption\<close>

lemma dnonneg_not_NaN: "dnonneg a \<Longrightarrow> a \<noteq> NaN"
  by (cases a) simp_all

lemma play_ok:
  "\<exists>g. play_loop new_game ws = Inr g \<and> game_ok g \<and>
       play ws = Inr (m_score (player_A g), m_score (player_B g))"
  using play_loop_ok [OF game_ok_new, of ws] by (auto simp: play_def getScore_def)

text \<open>
  Claim C7. \<open>calcScore\<close> is only called by \<open>takeTurn\<close>, on the box that has just absorbed
  the token of the turn, so the history it reads is not empty. In every state that
  \<open>play\<close> reaches, a turn succeeds: the selected index is inside the vector and the score
  is a number. The two empty-history branches (the blue box dereferences the end iterator
  of an empty range, the green box divides zero by zero and returns NaN) are therefore
  never taken: \<open>play\<close> returns a pair of scores on every input, and neither score is
  NaN.
\<close>

theorem calcScore_reads_nonempty_history:
  "absorbed_weights (boxAbsorb bx w) \<noteq> [] \<and>
   blue_calcScore [] = Inl EmptyRange \<and> green_calcScore [] = Inr NaN \<and>
   (\<exists>a b. play input_weights = Inr (a, b) \<and> a \<noteq> NaN \<and> b \<noteq> NaN) \<and>
   (play_loop new_game input_weights = Inr g \<longrightarrow>
      (\<exists>i s. i = unat (findSmallestBox (boxes g)) \<and> i < length (boxes g) \<and>
         absorbed_weights (boxAbsorb (boxes g ! i) w) \<noteq> [] \<and>
         calcScore (boxAbsorb (boxes g ! i) w) = Inr s \<and> s \<noteq> NaN \<and>
         takeTurn w p (boxes g)
           = Inr (p\<lparr>m_score := dadd (m_score p) s\<rparr>, (boxes g)[i := boxAbsorb (boxes g ! i) w])))"
proof -
  have 1: "absorbed_weights (boxAbsorb bx w) \<noteq> []" by (simp add: absorbed_boxAbsorb)
  have 2: "blue_calcScore [] = Inl EmptyRange" by (simp add: blue_calcScore_def)
  have 3: "green_calcScore [] = Inr NaN"
    by (simp add: green_calcScore_def recent_weights_def of_size_def ddiv_def dmul_def)
  have 4: "\<exists>a b. play input_weights = Inr (a, b) \<and> a \<noteq> NaN \<and> b \<noteq> NaN"
    using play_ok [of input_weights] by (auto simp: game_ok_def dnonneg_not_NaN)
  have 5: "\<exists>i s. i = unat (findSmallestBox (boxes g)) \<and> i < length (boxes g) \<and>
         absorbed_weights (boxAbsorb (boxes g ! i) w) \<noteq> [] \<and>
         calcScore (boxAbsorb (boxes g ! i) w) = Inr s \<and> s \<noteq> NaN \<and>
         takeTurn w p (boxes g)
           = Inr (p\<lparr>m_score := dadd (m_score p) s\<rparr>, (boxes g)[i := boxAbsorb (boxes g ! i) w])"
    if "play_loop new_game input_weights = Inr g"
  proof -
    from play_loop_ok [OF game_ok_new, of input_weights] that have "game_ok g" by auto
    then have bs: "boxes g \<noteq> []" "length (boxes g) \<le> 65536" by (auto simp: game_ok_def)
    from takeTurn_ok [OF bs, of w p] show ?thesis
      by (auto simp: absorbed_boxAbsorb dnonneg_not_NaN)
  qed
  from 1 2 3 4 5 show ?thesis by blast
qed

theorem calcScore_reads_nonempty_history_witness:
  "play_loop new_game [] = Inr new_game \<and>
   (\<exists>s. calcScore (boxAbsorb (boxes new_game ! 0) 5) = Inr s \<and> s \<noteq> NaN \<and>
      takeTurn 5 new_player (boxes new_game)
        = Inr (new_player\<lparr>m_score := dadd (m_score new_player) s\<rparr>,
               (boxes new_game)[0 := boxAbsorb (boxes new_game ! 0) 5]))"
proof -
  have 0: "unat (findSmallestBox (boxes new_game)) = 0"
    by (simp add: game_eval play_round_1 play_round_2 play_round_3)
  have 1: "play_loop new_game [] = Inr new_game" by simp
  from calcScore_reads_nonempty_history [of _ 5 "[]" new_game new_player] 1 0
  show ?thesis by auto
qed

section \<open>Scores never decrease\<close>

text \<open>
  Claim C8. One more token changes the score of exactly one player, by adding a score
  \<open>s\<close> that is not negative (and not NaN) in double arithmetic; the sum is rounded, and
  rounding is monotone, so neither player's score decreases from one turn to the next.
\<close>

theorem score_monotone:
  "\<exists>a b a' b' s. play ws = Inr (a, b) \<and> play (ws @ [w]) = Inr (a', b') \<and> dnonneg s \<and>
      dle a a' \<and> dle b b' \<and> (a' = dadd a s \<and> b' = b \<or> a' = a \<and> b' = dadd b s)"
proof -
  from play_ok [of ws] obtain g where
    g: "play_loop new_game ws = Inr g" "game_ok g"
       "play ws = Inr (m_score (player_A g), m_score (player_B g))" by blast
  from play_turn_ok [OF g(2), of w] obtain g' s where
    g': "play_turn g w = Inr g'" "game_ok g'" "dnonneg s"
      "if A_to_move g
       then m_score (player_A g') = dadd (m_score (player_A g)) s \<and> player_B g' = player_B g
       else m_score (player_B g') = dadd (m_score (player_B g)) s \<and> player_A g' = player_A g"
    by blast
  have "play_loop new_game (ws @ [w]) = Inr g'"
    by (simp add: play_loop_append g(1) g'(1))
  then have p': "play (ws @ [w]) = Inr (m_score (player_A g'), m_score (player_B g'))"
    by (simp add: play_def getScore_def)
  have nn: "dnonneg (m_score (player_A g))" "dnonneg (m_score (player_B g))"
    using g(2) by (simp_all add: game_ok_def)
  show ?thesis
  proof (cases "A_to_move g")
    case True
    with g'(4) have e: "m_score (player_A g') = dadd (m_score (player_A g)) s"
      "player_B g' = player_B g" by simp_all
    have "dle (m_score (player_A g)) (m_score (player_A g'))"
      unfolding e by (rule dle_dadd [OF nn(1) g'(3)])
    moreover have "dle (m_score (player_B g)) (m_score (player_B g'))"
      unfolding e by (rule dnonneg_dle_refl [OF nn(2)])
    ultimately show ?thesis using g(3) p' g'(3) e by auto
  next
    case False
    with g'(4) have e: "m_score (player_B g') = dadd (m_score (player_B g)) s"
      "player_A g' = player_A g" by simp_all
    have "dle (m_score (player_B g)) (m_score (player_B g'))"
      unfolding e by (rule dle_dadd [OF nn(2) g'(3)])
    moreover have "dle (m_score (player_A g)) (m_score (player_A g'))"
      unfolding e by (rule dnonneg_dle_refl [OF nn(1)])
    ultimately show ?thesis using g(3) p' g'(3) e by auto
  qed
qed

theorem score_monotone_witness:
  "\<exists>a b a' b' s. play [1, 1, 2] = Inr (a, b) \<and> play ([1, 1, 2] @ [3]) = Inr (a', b') \<and>
      dnonneg s \<and> dle a a' \<and> dle b b' \<and> (a' = dadd a s \<and> b' = b \<or> a' = a \<and> b' = dadd b s)"
  by (rule score_monotone [of "[1, 1, 2]" 3])

section \<open>Whose turn it is\<close>

lemma long_round_201: "round_rat (5 / 3) = Finite (7505999378950827 / 4503599627370496)"
  by (rule round_rat_eval [where e = "0" and k = 7505999378950827]) simp_all

lemma long_round_202: "round_rat (56340026676810200626075283983929 / 20282409603651670423947251286016) = Finite (6254999482459023 / 2251799813685248)"
  by (rule round_rat_eval [where e = "1" and k = 6254999482459023]) simp_all

lemma long_round_203: "round_rat (6254999482459023 / 2251799813685248) = Finite (6254999482459023 / 2251799813685248)"
  by (rule round_rat_grid [where m = 6254999482459023 and g = "-51"]) simp_all

lemma new_game_zeros: "new_game = zeros_game 0"
  by (simp add: new_game_def zeros_game_def makeGreenBox_def Box_def d_lit_def)

lemma findSmallestBox_zeros: "unat (findSmallestBox (boxes (zeros_game n))) = 0"
  by (simp add: zeros_game_def findSmallestBox_def findSmallestBox_loop.simps box_less_def
      makeGreenBox_def makeBlueBox_def Box_def d_lit_def play_round_1 play_round_2 play_round_3)

lemma zeros_game_fields:
  "length (boxes (zeros_game n)) = 4"
  "boxes (zeros_game n) ! 0
     = \<lparr>kind = GreenBox, m_weight = Finite 0, absorbed_weights = replicate n 0\<rparr>"
  "count (zeros_game n) = of_nat (min n 65535)"
  "player_A (zeros_game n) = new_player"
  "player_B (zeros_game n) = new_player"
  by (simp_all add: zeros_game_def)

text \<open>A turn after \<open>n\<close> zero tokens: the token goes to the first box, whatever it weighs.\<close>

lemma takeTurn_zeros:
  "takeTurn w p (boxes (zeros_game n))
     = Inr (p\<lparr>m_score := dadd (m_score p) (windowed_mean_square (replicate n 0 @ [w]))\<rparr>,
            (boxes (zeros_game n))
              [0 := \<lparr>kind = GreenBox, m_weight = dadd (Finite 0) (of_u32 w),
                     absorbed_weights = replicate n 0 @ [w]\<rparr>])"
  by (simp add: takeTurn_def Let_def findSmallestBox_zeros zeros_game_fields boxAbsorb_def
      calcScore_def green_calcScore_eq)

lemma windowed_mean_square_last:
  assumes "2 \<le> n"
  shows "windowed_mean_square (replicate n 0 @ [w]) = windowed_mean_square [0, 0, w]"
proof -
  have "n - (n - 2) = 2" using assms by simp
  then have "drop (n - 2) (replicate n (0 :: u32)) = [0, 0]"
    by (simp add: numeral_2_eq_2)
  moreover have "min 3 (Suc n) = 3" "Suc n - 3 = n - 2" "n - 2 - n = 0" using assms by simp_all
  ultimately show ?thesis
    by (simp add: windowed_mean_square_def del: drop_replicate)
qed

lemma windowed_mean_square_zeros: "windowed_mean_square (replicate n 0 @ [0]) = Finite 0"
proof -
  let ?w = "drop (length (replicate n (0 :: u32) @ [0]) - min 3 (length (replicate n (0 :: u32) @ [0])))
      (replicate n (0 :: u32) @ [0])"
  have "set ?w \<subseteq> set (replicate n (0 :: u32) @ [0])" by (rule set_drop_subset)
  then have "set ?w \<subseteq> {0}" by auto
  then have "\<forall>x \<in> set ?w. unat x = 0" by auto
  then have s: "sum_list (map unat ?w) = 0" by (simp only: sum_list_eq_0_iff set_map) auto
  have l: "length ?w \<noteq> 0" by simp
  show ?thesis
    unfolding windowed_mean_square_def Let_def s
    using l by (simp add: ddiv_def dmul_def del: length_drop drop_append length_append)
qed

lemma next_count_of_nat: "next_count (of_nat (min n 65535)) = of_nat (min (Suc n) 65535)"
proof (cases "n < 65535")
  case True
  then have "unat (of_nat n :: u16) = n" by (simp add: unat_u16_of_nat)
  then show ?thesis using True by (simp add: next_count_def min_def)
next
  case False
  then show ?thesis by (simp add: next_count_def min_def)
qed

lemma play_turn_zeros: "play_turn (zeros_game n) 0 = Inr (zeros_game (Suc n))"
proof -
  have "(boxes (zeros_game n))
      [0 := \<lparr>kind = GreenBox, m_weight = Finite 0, absorbed_weights = replicate n 0 @ [0]\<rparr>]
      = boxes (zeros_game (Suc n))"
    by (simp add: zeros_game_def replicate_append_same)
  then show ?thesis
    by (simp add: play_turn_def takeTurn_zeros windowed_mean_square_zeros zeros_game_fields
        next_count_of_nat of_u32_def new_player_def)
qed

lemma play_loop_zeros: "play_loop (zeros_game n) (replicate k 0) = Inr (zeros_game (n + k))"
  by (induction k arbitrary: n) (simp_all add: play_turn_zeros)

lemma play_loop_zeros_then:
  "play_loop new_game (replicate k 0 @ ws) = play_loop (zeros_game k) ws"
  by (simp add: play_loop_append new_game_zeros play_loop_zeros)

lemma windowed_mean_square_005:
  "windowed_mean_square [0, 0, 5] = Finite (6254999482459023 / 2251799813685248)"
  by (simp add: windowed_mean_square_def ddiv_def dmul_def long_round_201 long_round_202 long_round_203)

text \<open>After \<open>n \<ge> 2\<close> zero tokens, the token 5 scores for whoever the counter selects.\<close>

lemma play_zeros_then_5:
  assumes "2 \<le> n"
  shows "play (replicate n 0 @ [5])
     = (if unat (of_nat (min n 65535) :: u16) mod 2 = 0
        then Inr (Finite (6254999482459023 / 2251799813685248), Finite 0)
        else Inr (Finite 0, Finite (6254999482459023 / 2251799813685248)))"
  by (simp add: play_def play_loop_zeros_then play_turn_def A_to_move_def takeTurn_zeros
      zeros_game_fields windowed_mean_square_last [OF assms] windowed_mean_square_005
      getScore_def new_player_def long_round_201 long_round_202 long_round_203)

text \<open>
  Who moves after \<open>length ws\<close> tokens: player A exactly when that number is even and
  below 65535; from the 65535th token on the counter stays odd and every turn is B's.
\<close>

lemma turn_attribution:
  "\<exists>g. play_loop new_game ws = Inr g \<and>
       (A_to_move g \<longleftrightarrow> even (length ws) \<and> length ws < 65535)"
proof -
  from play_loop_ok [OF game_ok_new, of ws] obtain g where
    g: "play_loop new_game ws = Inr g" "unat (count g) = min (unat (count new_game) + length ws) 65535"
    by blast
  have "unat (count g) = min (length ws) 65535" using g(2) by (simp add: new_game_def)
  then have "A_to_move g \<longleftrightarrow> even (length ws) \<and> length ws < 65535"
    by (cases "length ws < 65535") (simp_all add: A_to_move_def min_def even_iff_mod_2_eq_zero)
  with g(1) show ?thesis by blast
qed

text \<open>
  Claim C1 says that the weight at every even index is applied in a turn of player A.
  The turn counter of \<open>play\<close> is a \<^verbatim>\<open>uint16_t\<close> that stops at 65535, an odd value, so
  the weights at the indices 65535, 65536, 65537, ... all go to player B. After 65536
  zero tokens, which score nothing, the token 5 at the even index 65536 scores for B;
  after two zero tokens the same token, at the even index 2, scores for A.
\<close>

theorem play_turn_65536_goes_to_B:
  "play (replicate 65536 0 @ [5]) = Inr (Finite 0, Finite (6254999482459023 / 2251799813685248)) \<and>
   play (replicate 2 0 @ [5]) = Inr (Finite (6254999482459023 / 2251799813685248), Finite 0)"
  by (simp add: play_zeros_then_5)

section \<open>Repeated calls\<close>

text \<open>
  The run on the heap simulates the run on the list of boxes: while the cells allocated
  by the call hold the boxes \<open>bs\<close> and the vector holds their addresses, every step
  computes the same index, the same score and the same boxes, and touches no other cell.
\<close>

lemma deref_own:
  assumes "cells s = H @ map Some bs" "i < length bs"
  shows "deref s ([length H..<length H + length bs] ! i) = Inr (bs ! i)"
  using assms by (simp add: deref_def nth_append)

lemma findSmallestBox_ptr_loop_sim:
  "cells s = H @ map Some bs \<Longrightarrow> ptrs = [length H..<length H + length bs] \<Longrightarrow>
   (idx < length bs \<longrightarrow> unat small_idx < length bs) \<Longrightarrow>
   findSmallestBox_ptr_loop s ptrs idx small_idx = Inr (findSmallestBox_loop bs idx small_idx)"
proof (induction s ptrs idx small_idx rule: findSmallestBox_ptr_loop.induct)
  case (1 s ptrs idx small_idx)
  show ?case
  proof (cases "idx < length bs")
    case False
    then show ?thesis
      using "1.prems"(2)
      by (subst findSmallestBox_ptr_loop.simps, subst findSmallestBox_loop.simps) simp
  next
    case True
    then have sm: "unat small_idx < length bs" using "1.prems"(3) by simp
    have l: "deref s (ptrs ! idx) = Inr (bs ! idx)"
      unfolding "1.prems"(2) by (rule deref_own [OF "1.prems"(1) True])
    have r: "deref s (ptrs ! unat small_idx) = Inr (bs ! unat small_idx)"
      unfolding "1.prems"(2) by (rule deref_own [OF "1.prems"(1) sm])
    let ?new = "if box_less (bs ! idx) (bs ! unat small_idx) then of_nat idx else small_idx"
    have "unat (of_nat idx :: u16) \<le> idx" by (simp add: unat_of_nat)
    then have new: "idx + 1 < length bs \<longrightarrow> unat ?new < length bs"
      using sm True by auto
    have len: "idx < length ptrs" using True "1.prems"(2) by simp
    have "findSmallestBox_ptr_loop s ptrs (idx + 1) ?new
        = Inr (findSmallestBox_loop bs (idx + 1) ?new)"
      by (rule "1.IH" [OF len l r "1.prems"(1,2) new])
    then show ?thesis
      using True len
      by (subst findSmallestBox_ptr_loop.simps, subst findSmallestBox_loop.simps)
         (simp add: l r)
  qed
qed

lemma takeTurn_ptr_sim:
  assumes "takeTurn w p bs = Inr (p', bs')"
    and "cells s = H @ map Some bs" "ptrs = [length H..<length H + length bs]"
  shows "takeTurn_ptr w p ptrs s = Inr (p', s\<lparr>cells := H @ map Some bs'\<rparr>) \<and>
         length bs' = length bs"
proof -
  let ?i = "unat (findSmallestBox bs)"
  from assms(1) have i: "?i < length bs"
    by (auto simp: takeTurn_def Let_def split: if_splits)
  from assms(1) i obtain sc where
    sc: "calcScore (boxAbsorb (bs ! ?i) w) = Inr sc"
        "p' = p\<lparr>m_score := dadd (m_score p) sc\<rparr>"
        "bs' = bs[?i := boxAbsorb (bs ! ?i) w]"
    by (auto simp: takeTurn_def Let_def split: sum.splits)
  have "1 < length bs \<longrightarrow> unat (0 :: u16) < length bs" by auto
  from findSmallestBox_ptr_loop_sim [OF assms(2,3) this]
  have f: "findSmallestBox_ptr s ptrs = Inr (findSmallestBox bs)"
    by (simp add: findSmallestBox_ptr_def findSmallestBox_def)
  have p: "ptrs ! ?i = length H + ?i" "length ptrs = length bs"
    using i by (simp_all add: assms(3))
  have d: "deref s (length H + ?i) = Inr (bs ! ?i)"
    using deref_own [OF assms(2) i] i by simp
  have u: "(H @ map Some bs)[length H + ?i := Some (boxAbsorb (bs ! ?i) w)] = H @ map Some bs'"
    by (simp add: list_update_append sc(3) map_update)
  have "takeTurn_ptr w p ptrs s = Inr (p', s\<lparr>cells := H @ map Some bs'\<rparr>)"
    using i by (simp add: takeTurn_ptr_def f Let_def p d sc(1,2) assms(2) u)
  moreover have "length bs' = length bs" by (simp add: sc(3))
  ultimately show ?thesis by simp
qed

lemma play_ptr_loop_sim:
  "play_loop g ws = Inr g' \<Longrightarrow> cells s = H @ map Some (boxes g) \<Longrightarrow>
   ptrs = [length H..<length H + length (boxes g)] \<Longrightarrow>
   play_ptr_loop ptrs (count g) (player_A g) (player_B g) s ws
     = Inr (player_A g', player_B g', s\<lparr>cells := H @ map Some (boxes g')\<rparr>)"
proof (induction ws arbitrary: g s)
  case Nil
  then show ?case by simp
next
  case (Cons w ws)
  from Cons.prems(1) obtain g1 where g1: "play_turn g w = Inr g1" "play_loop g1 ws = Inr g'"
    by (auto split: sum.splits)
  show ?case
  proof (cases "A_to_move g")
    case True
    from g1(1) True obtain p bs where
      t: "takeTurn w (player_A g) (boxes g) = Inr (p, bs)"
         "g1 = g\<lparr>boxes := bs, player_A := p, count := next_count (count g)\<rparr>"
      by (auto simp: play_turn_def split: sum.splits)
    from takeTurn_ptr_sim [OF t(1) Cons.prems(2,3)] have
      tp: "takeTurn_ptr w (player_A g) ptrs s = Inr (p, s\<lparr>cells := H @ map Some bs\<rparr>)"
      and len: "length bs = length (boxes g)" by simp_all
    have "play_ptr_loop ptrs (count g1) (player_A g1) (player_B g1) (s\<lparr>cells := H @ map Some bs\<rparr>) ws
        = Inr (player_A g', player_B g', s\<lparr>cells := H @ map Some bs\<rparr>\<lparr>cells := H @ map Some (boxes g')\<rparr>)"
      by (rule Cons.IH [OF g1(2)]) (simp_all add: t(2) len Cons.prems(3))
    then show ?thesis
      using True by (simp add: A_to_move_def tp t(2))
  next
    case False
    from g1(1) False obtain p bs where
      t: "takeTurn w (player_B g) (boxes g) = Inr (p, bs)"
         "g1 = g\<lparr>boxes := bs, player_B := p, count := next_count (count g)\<rparr>"
      by (auto simp: play_turn_def split: sum.splits)
    from takeTurn_ptr_sim [OF t(1) Cons.prems(2,3)] have
      tp: "takeTurn_ptr w (player_B g) ptrs s = Inr (p, s\<lparr>cells := H @ map Some bs\<rparr>)"
      and len: "length bs = length (boxes g)" by simp_all
    have "play_ptr_loop ptrs (count g1) (player_A g1) (player_B g1) (s\<lparr>cells := H @ map Some bs\<rparr>) ws
        = Inr (player_A g', player_B g', s\<lparr>cells := H @ map Some bs\<rparr>\<lparr>cells := H @ map Some (boxes g')\<rparr>)"
      by (rule Cons.IH [OF g1(2)]) (simp_all add: t(2) len Cons.prems(3))
    then show ?thesis
      using False by (simp add: A_to_move_def tp t(2))
  qed
qed

text \<open>
  A call in any store returns what the list model returns, prints it, and leaves the
  cells it found untouched and its own four cells destroyed.
\<close>

lemma play_st_eq:
  "\<exists>a b. play input_weights = Inr (a, b) \<and>
     play_st s input_weights
       = (Inr (a, b),
          s\<lparr>cells := cells s @ [None, None, None, None], printed := printed s @ [(a, b)]\<rparr>)"
proof -
  from play_ok [of input_weights] obtain g where
    g: "play_loop new_game input_weights = Inr g" "game_ok g"
       "play input_weights = Inr (m_score (player_A g), m_score (player_B g))" by blast
  let ?H = "cells s"
  let ?s4 = "s\<lparr>cells := ?H @ map Some (boxes new_game)\<rparr>"
  have n: "length (boxes new_game) = 4" "count new_game = 0"
    "player_A new_game = new_player" "player_B new_game = new_player"
    by (simp_all add: new_game_def)
  have ptrs: "[length ?H, Suc (length ?H), Suc (Suc (length ?H)), Suc (Suc (Suc (length ?H)))]
      = [length ?H..<length ?H + length (boxes new_game)]"
    by (simp add: n upt_rec)
  have "play_ptr_loop [length ?H..<length ?H + length (boxes new_game)]
      (count new_game) (player_A new_game) (player_B new_game) ?s4 input_weights
      = Inr (player_A g, player_B g, ?s4\<lparr>cells := ?H @ map Some (boxes g)\<rparr>)"
    by (rule play_ptr_loop_sim [OF g(1)]) simp_all
  then have run: "play_ptr_loop
      [length ?H, Suc (length ?H), Suc (Suc (length ?H)), Suc (Suc (Suc (length ?H)))]
      0 new_player new_player ?s4 input_weights
      = Inr (player_A g, player_B g, s\<lparr>cells := ?H @ map Some (boxes g)\<rparr>)"
    by (simp add: ptrs n)
  have "length (boxes g) = 4" using g(2) by (simp add: game_ok_def)
  then obtain b0 b1 b2 b3 where bs: "boxes g = [b0, b1, b2, b3]"
    by (auto simp: length_Suc_conv numeral_eq_Suc)
  have s4: "?s4 = s\<lparr>cells := ?H @ [Some (makeGreenBox (d_lit 0)),
      Some (makeGreenBox (d_lit (1 / 10))), Some (makeBlueBox (d_lit (2 / 10))),
      Some (makeBlueBox (d_lit (3 / 10)))]\<rparr>"
    by (simp add: new_game_def)
  have "play_st s input_weights
      = (Inr (m_score (player_A g), m_score (player_B g)),
         s\<lparr>cells := ?H @ [None, None, None, None],
           printed := printed s @ [(m_score (player_A g), m_score (player_B g))]\<rparr>)"
    using run unfolding s4
    by (simp add: play_st_def make_unique_def getScore_def destroy_def bs list_update_append)
  with g(3) show ?thesis by blast
qed

text \<open>
  Claim C9. \<open>play\<close> is deterministic and keeps no state between invocations. A call
  reads the store it starts in (the heap and the output that earlier calls or anything
  else have left) only to allocate its own four boxes: in every store it returns the
  pair that the run on a fresh list of boxes returns, it leaves every cell it found as it
  was and none of its own boxes alive, and it appends one line to the output. So any two
  calls on the same input return the same pair, whatever their stores, also when one of
  them starts in the store that an earlier call has left.
\<close>

theorem play_deterministic:
  "(\<exists>a b. play input_weights = Inr (a, b) \<and>
      play_st s input_weights
        = (Inr (a, b),
           s\<lparr>cells := cells s @ [None, None, None, None], printed := printed s @ [(a, b)]\<rparr>)) \<and>
   fst (play_st s input_weights) = fst (play_st s' input_weights) \<and>
   fst (play_st (snd (play_st s earlier)) input_weights) = fst (play_st s input_weights)"
  using play_st_eq [of input_weights s] play_st_eq [of input_weights s']
    play_st_eq [of input_weights "snd (play_st s earlier)"]
  by auto

theorem play_deterministic_witness:
  "play_st \<lparr>cells = [Some (makeBlueBox (Finite 7)), None], printed = [(Finite 1, Finite 0)]\<rparr>
     [1, 1, 2, 3]
   = (Inr (Finite 13, Finite 25),
      \<lparr>cells = [Some (makeBlueBox (Finite 7)), None, None, None, None, None],
        printed = [(Finite 1, Finite 0), (Finite 13, Finite 25)]\<rparr>)"
  using play_deterministic
    [of "[1, 1, 2, 3]"
      "\<lparr>cells = [Some (makeBlueBox (Finite 7)), None], printed = [(Finite 1, Finite 0)]\<rparr>"]
    play_scenario_1
  by simp

end
